theory Spec2Isabelle
  imports
    Main
    "HOL-Library.AList"
    "HOL-Library.Multiset"
    "HOL-Library.Sublist"
    "HOL-Library.Char_ord"
    "HOL-Library.List_Lexorder"
    "HOL-Library.Option_ord"
begin

section \<open>Rows, errors and row streams\<close>

text \<open>
  A row is a Python \<open>dict\<close> from column names to values. A \<open>dict\<close> keeps its keys in
  insertion order, so a row is an association list with distinct keys; two rows are equal
  as Python dicts when they denote the same map (\<open>map_of\<close>). The values covered are
  integers and strings: both are immutable, so \<open>deepcopy\<close> of a row is a new object with
  the same contents. Floats are left out.
\<close>

datatype val = IntV int | StrV string

type_synonym row = "(string \<times> val) list"

datatype error = EmptyOperation | KeyError | TypeError | IndexError

text \<open>\<open>row[k]\<close>, \<open>row[k] = v\<close>, \<open>row.pop(k)\<close>, \<open>row.update(other)\<close> and \<open>row.keys()\<close>.
  Assignment to a key the dict has keeps the key's position; a new key goes to the end.\<close>

definition dict_get :: "row \<Rightarrow> string \<Rightarrow> error + val" where
  "dict_get r k = (case map_of r k of None \<Rightarrow> Inl KeyError | Some v \<Rightarrow> Inr v)"

definition dict_set :: "row \<Rightarrow> string \<Rightarrow> val \<Rightarrow> row" where
  "dict_set r k v = AList.update k v r"

definition dict_pop :: "row \<Rightarrow> string \<Rightarrow> error + (val \<times> row)" where
  "dict_pop r k = (case map_of r k of None \<Rightarrow> Inl KeyError | Some v \<Rightarrow> Inr (v, AList.delete k r))"

definition dict_update :: "row \<Rightarrow> row \<Rightarrow> row" where
  "dict_update r other = fold (\<lambda>(k, v) acc. dict_set acc k v) other r"

definition dict_keys :: "row \<Rightarrow> string list" where
  "dict_keys r = map fst r"

text \<open>
  A row stream is what a generator does when it is advanced again and again: it yields a
  row and goes on, it is exhausted (\<open>Stop\<close>, Python's \<open>StopIteration\<close>), or it raises.
  \<open>advance\<close> is \<open>next\<close>, \<open>drain\<close> is \<open>list(stream)\<close>, \<open>of_list\<close> is \<open>iter(xs)\<close>, and
  \<open>sappend s t\<close> is \<open>yield from s\<close> followed by the rest \<open>t\<close> of the generator body: an
  exception of \<open>s\<close> ends the whole generator.
\<close>

datatype 'a stream = Stop | Raise error | Yield 'a "'a stream"

fun advance :: "'a stream \<Rightarrow> error + ('a \<times> 'a stream) option" where
  "advance Stop = Inr None"
| "advance (Raise e) = Inl e"
| "advance (Yield x s) = Inr (Some (x, s))"

fun of_list :: "'a list \<Rightarrow> 'a stream" where
  "of_list [] = Stop"
| "of_list (x # xs) = Yield x (of_list xs)"

fun drain :: "'a stream \<Rightarrow> error + 'a list" where
  "drain Stop = Inr []"
| "drain (Raise e) = Inl e"
| "drain (Yield x s) = (case drain s of Inl e \<Rightarrow> Inl e | Inr xs \<Rightarrow> Inr (x # xs))"

fun sappend :: "'a stream \<Rightarrow> 'a stream \<Rightarrow> 'a stream" where
  "sappend Stop t = t"
| "sappend (Raise e) t = Raise e"
| "sappend (Yield x s) t = Yield x (sappend s t)"

fun sconcat :: "'a stream list \<Rightarrow> 'a stream" where
  "sconcat [] = Stop"
| "sconcat (s # ss) = sappend s (sconcat ss)"

section \<open>Grouping by key: \<open>itertools.groupby\<close>\<close>

text \<open>
  The key of a row is \<open>[row[k] for k in self.keys]\<close>; a row without one of the columns
  raises \<open>KeyError\<close>.
\<close>

fun key_of :: "string list \<Rightarrow> row \<Rightarrow> error + val list" where
  "key_of [] r = Inr []"
| "key_of (k # ks) r =
     (case dict_get r k of
        Inl e \<Rightarrow> Inl e
      | Inr v \<Rightarrow> (case key_of ks r of Inl e \<Rightarrow> Inl e | Inr vs \<Rightarrow> Inr (v # vs)))"

text \<open>
  \<open>itertools.groupby\<close> is Python's library; it is modelled by the behaviour its
  documentation gives. The group iterator for target key \<open>tgt\<close> yields the rows that
  follow while their key equals \<open>tgt\<close>; each row's key is computed when the row is fetched.
  \<open>grouper K tgt s\<close> returns the rows the group iterator can still yield from \<open>s\<close>, and what
  the underlying stream holds once \<open>groupby\<close> has moved past the group. Whether or not the
  consumer took all rows of the group, the next \<open>next(groupby)\<close> discards the remaining
  ones; an exception met on the way (a key that cannot be computed, an exception of the
  upstream) is raised to whoever advances.
\<close>

fun grouper :: "string list \<Rightarrow> val list \<Rightarrow> row stream \<Rightarrow> row stream \<times> row stream" where
  "grouper K tgt Stop = (Stop, Stop)"
| "grouper K tgt (Raise e) = (Raise e, Raise e)"
| "grouper K tgt (Yield x s) =
     (case key_of K x of
        Inl e \<Rightarrow> (Raise e, Raise e)
      | Inr k \<Rightarrow>
          if k = tgt then (case grouper K tgt s of (g, rest) \<Rightarrow> (Yield x g, rest))
          else (Stop, Yield x s))"

text \<open>
  \<open>next(groupby(rows, key))\<close>: \<open>None\<close> when the stream is exhausted, otherwise the key of
  the next row, the iterator over its group, and the stream after the group.
  \<open>Join._get_next_group\<close> is this call with \<open>StopIteration\<close> turned into \<open>None\<close>.
\<close>

definition get_next_group ::
  "string list \<Rightarrow> row stream \<Rightarrow> error + (val list \<times> row stream \<times> row stream) option" where
  "get_next_group K s =
     (case s of
        Stop \<Rightarrow> Inr None
      | Raise e \<Rightarrow> Inl e
      | Yield x s' \<Rightarrow>
          (case key_of K x of
             Inl e \<Rightarrow> Inl e
           | Inr k \<Rightarrow> (case grouper K k s' of (g, rest) \<Rightarrow> Inr (Some (k, Yield x g, rest)))))"

section \<open>Reduce\<close>

text \<open>
  A reducer takes the key tuple and the group iterator and is a generator of rows. It is
  any function of the group stream; an exception of the group iterator is taken to
  propagate through a reducer that meets it.
\<close>

type_synonym reducer = "string list \<Rightarrow> row stream \<Rightarrow> row stream"

lemma size_grouper: "size (snd (grouper K tgt s)) \<le> size s"
  by (induction s) (auto split: sum.splits prod.splits)

lemma size_get_next_group:
  "get_next_group K s = Inr (Some (k, g, rest)) \<Longrightarrow> size rest < size s"
proof (cases s)
  case (Yield x s')
  assume a: "get_next_group K s = Inr (Some (k, g, rest))"
  from a Yield have "rest = snd (grouper K k s')"
    by (auto simp: get_next_group_def split: sum.splits prod.splits)
  with size_grouper [of K k s'] Yield show ?thesis by simp
qed (auto simp: get_next_group_def)

text \<open>\<open>Reduce.__call__\<close>:
  \<^verbatim>\<open>for _, group in groupby(rows, key=lambda row: [row[k] for k in self.keys]):
      yield from self.reducer(tuple(self.keys), group)\<close>\<close>

function Reduce_call :: "reducer \<Rightarrow> string list \<Rightarrow> row stream \<Rightarrow> row stream" where
  "Reduce_call r K s =
     (case get_next_group K s of
        Inl e \<Rightarrow> Raise e
      | Inr None \<Rightarrow> Stop
      | Inr (Some (k, g, rest)) \<Rightarrow> sappend (r K g) (Reduce_call r K rest))"
  by pat_completeness auto
termination
  by (relation "measure (\<lambda>(r, K, s). size s)") (auto dest: size_get_next_group)

declare Reduce_call.simps [simp del]


subsection \<open>Streams of lists\<close>

lemma sappend_Stop [simp]: "sappend s Stop = s"
  by (induction s) auto

lemma sappend_assoc: "sappend (sappend s t) u = sappend s (sappend t u)"
  by (induction s) auto

lemma of_list_append: "of_list (xs @ ys) = sappend (of_list xs) (of_list ys)"
  by (induction xs) auto

lemma drain_of_list [simp]: "drain (of_list xs) = Inr xs"
  by (induction xs) auto

lemma of_list_inject [simp]: "of_list xs = of_list ys \<longleftrightarrow> xs = ys"
proof (induction xs arbitrary: ys)
  case Nil
  then show ?case by (cases ys) auto
next
  case (Cons x xs)
  then show ?case by (cases ys) auto
qed

subsection \<open>The groups of the specification: maximal runs\<close>

text \<open>
  The specification's groups are the maximal contiguous runs of rows with the same key
  value. \<open>runs\<close> builds them from the end of the list: a row joins the run that follows
  it when the keys agree and opens a run of its own otherwise. \<open>maximal_runs\<close> says what
  makes a list of groups the list of maximal runs: no group is empty, the rows of a group
  share the key of its first row, and neighbouring groups differ in their key.
\<close>

fun attach :: "('a \<Rightarrow> 'k) \<Rightarrow> 'a \<Rightarrow> 'a list list \<Rightarrow> 'a list list" where
  "attach f x ((y # g) # gs) = (if f x = f y then (x # y # g) # gs else [x] # (y # g) # gs)"
| "attach f x gs = [x] # gs"

definition runs :: "('a \<Rightarrow> 'k) \<Rightarrow> 'a list \<Rightarrow> 'a list list" where
  "runs f xs = foldr (attach f) xs []"


lemma runs_Nil [simp]: "runs f [] = []"
  by (simp add: runs_def)

lemma runs_Cons_attach: "runs f (x # xs) = attach f x (runs f xs)"
  by (simp add: runs_def)

text \<open>Read from the front, the first run is the first row and the rows after it while
  the key stays the same.\<close>

lemma runs_Cons:
  "runs f (x # xs) =
     (x # takeWhile (\<lambda>y. f y = f x) xs) # runs f (dropWhile (\<lambda>y. f y = f x) xs)"
proof (induction xs arbitrary: x)
  case Nil
  then show ?case by (simp add: runs_Cons_attach)
next
  case (Cons y ys)
  show ?case
    using Cons [of y] by (simp add: runs_Cons_attach [of f x])
qed

lemma concat_runs: "concat (runs f xs) = xs"
proof (induction "length xs" arbitrary: xs rule: less_induct)
  case less
  show ?case
  proof (cases xs)
    case Nil
    then show ?thesis by simp
  next
    case (Cons x ys)
    have "length (dropWhile (\<lambda>y. f y = f x) ys) < length xs"
      using Cons length_dropWhile_le [of "\<lambda>y. f y = f x" ys] by simp
    from less [OF this] Cons show ?thesis by (simp add: runs_Cons)
  qed
qed



subsection \<open>The engine's groups on a stream without errors\<close>

lemma grouper_of_list:
  assumes "\<forall>x\<in>set xs. \<exists>k. key_of K x = Inr k"
  shows "grouper K tgt (of_list xs) =
    (of_list (takeWhile (\<lambda>x. key_of K x = Inr tgt) xs),
     of_list (dropWhile (\<lambda>x. key_of K x = Inr tgt) xs))"
  using assms by (induction xs) auto

lemma get_next_group_of_list:
  assumes "\<forall>y\<in>set (x # xs). \<exists>k. key_of K y = Inr k"
  shows "\<exists>k. key_of K x = Inr k \<and> get_next_group K (of_list (x # xs)) =
    Inr (Some (k, of_list (x # takeWhile (\<lambda>y. key_of K y = key_of K x) xs),
          of_list (dropWhile (\<lambda>y. key_of K y = key_of K x) xs)))"
proof -
  from assms obtain k where k: "key_of K x = Inr k" by auto
  from assms have "\<forall>y\<in>set xs. \<exists>k. key_of K y = Inr k" by simp
  from grouper_of_list [OF this, of k] k show ?thesis
    by (simp add: get_next_group_def)
qed




section \<open>Join\<close>

text \<open>
  \<open>Join.__call__\<close> compares the keys of the two current groups with \<open>==\<close> and \<open><\<close>. The
  keys are Python lists: \<open><\<close> looks for the first position where the lists differ and
  compares the two values there; an integer and a string cannot be ordered
  (\<open>TypeError\<close>). Strings are ordered by their characters' codes.
\<close>

fun py_lt :: "val \<Rightarrow> val \<Rightarrow> error + bool" where
  "py_lt (IntV a) (IntV b) = Inr (a < b)"
| "py_lt (StrV a) (StrV b) = Inr (a < b)"
| "py_lt _ _ = Inl TypeError"

fun list_lt :: "val list \<Rightarrow> val list \<Rightarrow> error + bool" where
  "list_lt [] [] = Inr False"
| "list_lt [] (y # ys) = Inr True"
| "list_lt (x # xs) [] = Inr False"
| "list_lt (x # xs) (y # ys) = (if x = y then list_lt xs ys else py_lt x y)"

text \<open>
  A joiner takes the key tuple and the row iterators of the left and of the right group,
  and is a generator of rows. As for reducers, an exception of a group iterator is taken
  to propagate through a joiner that meets it.
\<close>

type_synonym joiner = "string list \<Rightarrow> row stream \<Rightarrow> row stream \<Rightarrow> row stream"

text \<open>\<open>left_next\<close> and \<open>right_next\<close>: \<open>None\<close>, or the key, the group iterator and the stream
  that follows the group.\<close>

type_synonym group = "val list \<times> row stream \<times> row stream"

fun remaining :: "group option \<Rightarrow> nat" where
  "remaining None = 0"
| "remaining (Some (k, g, rest)) = Suc (size rest)"

lemma remaining_get_next_group:
  "get_next_group K s = Inr nxt \<Longrightarrow> remaining nxt \<le> size s"
  by (cases nxt) (auto dest: size_get_next_group)

text \<open>
  The three loops of \<open>Join.__call__\<close>. The first equation is the body of
  \<^verbatim>\<open>while (left_next is not None) and (right_next is not None)\<close>, the second and the third
  are the loops that drain the left and the right side. The side without a group of the
  current key is handed to the joiner as the empty list \<open>[]\<close>, here \<open>Stop\<close>.
\<close>

function join_loop :: "joiner \<Rightarrow> string list \<Rightarrow> group option \<Rightarrow> group option \<Rightarrow> row stream" where
  "join_loop j K (Some (kl, gl, restl)) (Some (kr, gr, restr)) =
     (if kl = kr then
        sappend (j K gl gr)
          (case get_next_group K restl of
             Inl e \<Rightarrow> Raise e
           | Inr left_next \<Rightarrow>
               (case get_next_group K restr of
                  Inl e \<Rightarrow> Raise e
                | Inr right_next \<Rightarrow> join_loop j K left_next right_next))
      else
        (case list_lt kl kr of
           Inl e \<Rightarrow> Raise e
         | Inr lt \<Rightarrow>
             if lt then
               sappend (j K gl Stop)
                 (case get_next_group K restl of
                    Inl e \<Rightarrow> Raise e
                  | Inr left_next \<Rightarrow> join_loop j K left_next (Some (kr, gr, restr)))
             else
               sappend (j K Stop gr)
                 (case get_next_group K restr of
                    Inl e \<Rightarrow> Raise e
                  | Inr right_next \<Rightarrow> join_loop j K (Some (kl, gl, restl)) right_next)))"
| "join_loop j K (Some (kl, gl, restl)) None =
     sappend (j K gl Stop)
       (case get_next_group K restl of
          Inl e \<Rightarrow> Raise e
        | Inr left_next \<Rightarrow> join_loop j K left_next None)"
| "join_loop j K None (Some (kr, gr, restr)) =
     sappend (j K Stop gr)
       (case get_next_group K restr of
          Inl e \<Rightarrow> Raise e
        | Inr right_next \<Rightarrow> join_loop j K None right_next)"
| "join_loop j K None None = Stop"
  by pat_completeness auto
termination
  by (relation "measure (\<lambda>(j, K, l, r). remaining l + remaining r)")
     (auto dest!: remaining_get_next_group)

declare join_loop.simps [simp del]

text \<open>\<open>Join.__call__\<close>: the first group of the left stream is fetched, then the first
  group of the right stream, then the loops run.\<close>

definition Join_call :: "joiner \<Rightarrow> string list \<Rightarrow> row stream \<Rightarrow> row stream \<Rightarrow> row stream" where
  "Join_call j K rows rows2 =
     (case get_next_group K rows of
        Inl e \<Rightarrow> Raise e
      | Inr left_next \<Rightarrow>
          (case get_next_group K rows2 of
             Inl e \<Rightarrow> Raise e
           | Inr right_next \<Rightarrow> join_loop j K left_next right_next))"

subsection \<open>The four joiners\<close>

text \<open>
  All four joiners share the body of their inner loop:
  \<^verbatim>\<open>new_row = deepcopy(row_b)
  same_cols = set(new_row.keys()) & set(row_a.keys()) - set(keys)
  for col in same_cols:
      row_a[col + self._a_suffix] = row_a.pop(col)
      new_row[col + self._b_suffix] = new_row.pop(col)
  new_row.update(row_a)
  yield new_row\<close>
  \<open>new_row\<close> is a copy, but \<open>row_a\<close> is the left row itself: the renaming changes it in
  place, and the next pass of the inner loop, for the next right row, starts from the
  renamed \<open>row_a\<close>. So the body takes \<open>row_a\<close> and returns it, changed, beside the row it
  yields.

  Rows are values here, and the changed \<open>row_a\<close> is handed to the later passes of the
  loop for this \<open>row_a\<close> only. That is what the code does when every row the two inputs
  yield is an object of its own. When one dict object is yielded twice by the left input,
  or by both inputs (a graph joined with itself on a source of the same objects), the
  renaming shows wherever the object comes again; the section on the joiners over rows as
  objects, below, has the loop on a store and the condition under which both agree.

  Python does not fix the order in which \<open>for col in same_cols\<close> visits a set of strings.
  The joiners take it as the parameter \<open>order\<close>: it is given the colliding columns in the
  order of the right row's columns and returns them in the order of the visit.
\<close>

definition same_cols :: "string list \<Rightarrow> row \<Rightarrow> row \<Rightarrow> string list" where
  "same_cols keys new_row row_a =
     filter (\<lambda>c. c \<in> set (dict_keys row_a) \<and> c \<notin> set keys) (dict_keys new_row)"

fun rename_cols ::
  "string \<Rightarrow> string \<Rightarrow> string list \<Rightarrow> row \<Rightarrow> row \<Rightarrow> error + (row \<times> row)" where
  "rename_cols sa sb [] row_a new_row = Inr (row_a, new_row)"
| "rename_cols sa sb (col # cols) row_a new_row =
     (case dict_pop row_a col of
        Inl e \<Rightarrow> Inl e
      | Inr (va, row_a1) \<Rightarrow>
          (case dict_pop new_row col of
             Inl e \<Rightarrow> Inl e
           | Inr (vb, new_row1) \<Rightarrow>
               rename_cols sa sb cols (dict_set row_a1 (col @ sa) va)
                 (dict_set new_row1 (col @ sb) vb)))"

text \<open>One pass of the inner loop: the row it yields, and \<open>row_a\<close> as it leaves it.\<close>

definition merge_rows ::
  "(string list \<Rightarrow> string list) \<Rightarrow> string list \<Rightarrow> string \<Rightarrow> string \<Rightarrow> row \<Rightarrow> row \<Rightarrow>
   error + (row \<times> row)" where
  "merge_rows order keys sa sb row_a row_b =
     (case rename_cols sa sb (order (same_cols keys row_b row_a)) row_a row_b of
        Inl e \<Rightarrow> Inl e
      | Inr (row_a', new_row) \<Rightarrow> Inr (dict_update new_row row_a', row_a'))"

text \<open>\<^verbatim>\<open>for row_b in all_rows_b\<close>, for one \<open>row_a\<close>.\<close>

fun cartesian_row ::
  "(string list \<Rightarrow> string list) \<Rightarrow> string list \<Rightarrow> string \<Rightarrow> string \<Rightarrow> row \<Rightarrow> row list \<Rightarrow>
   row stream" where
  "cartesian_row order keys sa sb row_a [] = Stop"
| "cartesian_row order keys sa sb row_a (row_b # bs) =
     (case merge_rows order keys sa sb row_a row_b of
        Inl e \<Rightarrow> Raise e
      | Inr (new_row, row_a') \<Rightarrow> Yield new_row (cartesian_row order keys sa sb row_a' bs))"

text \<open>\<^verbatim>\<open>for row_a in rows_a\<close>: the left group is read row by row.\<close>

fun cartesian ::
  "(string list \<Rightarrow> string list) \<Rightarrow> string list \<Rightarrow> string \<Rightarrow> string \<Rightarrow> row stream \<Rightarrow>
   row list \<Rightarrow> row stream" where
  "cartesian order keys sa sb Stop all_rows_b = Stop"
| "cartesian order keys sa sb (Raise e) all_rows_b = Raise e"
| "cartesian order keys sa sb (Yield row_a rows_a) all_rows_b =
     sappend (cartesian_row order keys sa sb row_a all_rows_b)
       (cartesian order keys sa sb rows_a all_rows_b)"

text \<open>\<^verbatim>\<open>if a_empty: yield from all_rows_b\<close>: \<open>a_empty\<close> is still true when the loop over
  \<open>rows_a\<close> never ran its body.\<close>

fun if_a_empty :: "row stream \<Rightarrow> row list \<Rightarrow> row stream" where
  "if_a_empty Stop all_rows_b = of_list all_rows_b"
| "if_a_empty rows_a all_rows_b = Stop"

text \<open>Each joiner first reads the whole right group:
  \<^verbatim>\<open>all_rows_b = [row for row in rows_b]\<close>.\<close>

definition InnerJoiner :: "(string list \<Rightarrow> string list) \<Rightarrow> string \<Rightarrow> string \<Rightarrow> joiner" where
  "InnerJoiner order sa sb keys rows_a rows_b =
     (case drain rows_b of
        Inl e \<Rightarrow> Raise e
      | Inr all_rows_b \<Rightarrow> cartesian order keys sa sb rows_a all_rows_b)"

definition OuterJoiner :: "(string list \<Rightarrow> string list) \<Rightarrow> string \<Rightarrow> string \<Rightarrow> joiner" where
  "OuterJoiner order sa sb keys rows_a rows_b =
     (case drain rows_b of
        Inl e \<Rightarrow> Raise e
      | Inr all_rows_b \<Rightarrow>
          if all_rows_b = [] then rows_a
          else sappend (cartesian order keys sa sb rows_a all_rows_b)
                 (if_a_empty rows_a all_rows_b))"

definition LeftJoiner :: "(string list \<Rightarrow> string list) \<Rightarrow> string \<Rightarrow> string \<Rightarrow> joiner" where
  "LeftJoiner order sa sb keys rows_a rows_b =
     (case drain rows_b of
        Inl e \<Rightarrow> Raise e
      | Inr all_rows_b \<Rightarrow>
          if all_rows_b = [] then rows_a
          else cartesian order keys sa sb rows_a all_rows_b)"

definition RightJoiner :: "(string list \<Rightarrow> string list) \<Rightarrow> string \<Rightarrow> string \<Rightarrow> joiner" where
  "RightJoiner order sa sb keys rows_a rows_b =
     (case drain rows_b of
        Inl e \<Rightarrow> Raise e
      | Inr all_rows_b \<Rightarrow>
          sappend (cartesian order keys sa sb rows_a all_rows_b) (if_a_empty rows_a all_rows_b))"

subsection \<open>A join with one side exhausted\<close>

lemma get_next_group_Stop [simp]: "get_next_group K Stop = Inr None"
  by (simp add: get_next_group_def)

lemma sconcat_of_list: "sconcat (map of_list gs) = of_list (concat gs)"
  by (induction gs) (auto simp: of_list_append)

lemma sconcat_map_Stop: "sconcat (map (\<lambda>g. Stop) gs) = Stop"
  by (induction gs) auto

lemma get_next_group_of_list_Inr:
  assumes "\<forall>x\<in>set A. \<exists>k. key_of K x = Inr k"
  shows "\<exists>n. get_next_group K (of_list A) = Inr n"
proof (cases A)
  case Nil
  then show ?thesis by simp
next
  case (Cons x xs)
  from get_next_group_of_list [of x xs K] assms Cons show ?thesis by blast
qed

lemma join_loop_left_only:
  assumes "\<forall>x\<in>set A. \<exists>k. key_of K x = Inr k"
  shows "(case get_next_group K (of_list A) of
            Inl e \<Rightarrow> Raise e
          | Inr left_next \<Rightarrow> join_loop j K left_next None) =
         sconcat (map (\<lambda>g. j K (of_list g) Stop) (runs (key_of K) A))"
  using assms
proof (induction "length A" arbitrary: A rule: less_induct)
  case less
  show ?case
  proof (cases A)
    case Nil
    then show ?thesis by (simp add: join_loop.simps)
  next
    case (Cons x xs)
    let ?P = "\<lambda>y. key_of K y = key_of K x"
    let ?d = "dropWhile ?P xs"
    have len: "length ?d < length A"
      using Cons length_dropWhile_le [of ?P xs] by simp
    have keys: "\<forall>y\<in>set ?d. \<exists>k. key_of K y = Inr k"
      using less.prems Cons by (auto dest: set_dropWhileD)
    note ih = less.hyps [OF len keys]
    from get_next_group_of_list [of x xs K] less.prems Cons
    obtain k where g: "get_next_group K (of_list (x # xs)) =
       Inr (Some (k, of_list (x # takeWhile ?P xs), of_list ?d))"
      by auto
    show ?thesis unfolding Cons g runs_Cons
      by (simp add: join_loop.simps ih del: of_list.simps)
  qed
qed

lemma join_loop_right_only:
  assumes "\<forall>x\<in>set B. \<exists>k. key_of K x = Inr k"
  shows "(case get_next_group K (of_list B) of
            Inl e \<Rightarrow> Raise e
          | Inr right_next \<Rightarrow> join_loop j K None right_next) =
         sconcat (map (\<lambda>g. j K Stop (of_list g)) (runs (key_of K) B))"
  using assms
proof (induction "length B" arbitrary: B rule: less_induct)
  case less
  show ?case
  proof (cases B)
    case Nil
    then show ?thesis by (simp add: join_loop.simps)
  next
    case (Cons x xs)
    let ?P = "\<lambda>y. key_of K y = key_of K x"
    let ?d = "dropWhile ?P xs"
    have len: "length ?d < length B"
      using Cons length_dropWhile_le [of ?P xs] by simp
    have keys: "\<forall>y\<in>set ?d. \<exists>k. key_of K y = Inr k"
      using less.prems Cons by (auto dest: set_dropWhileD)
    note ih = less.hyps [OF len keys]
    from get_next_group_of_list [of x xs K] less.prems Cons
    obtain k where g: "get_next_group K (of_list (x # xs)) =
       Inr (Some (k, of_list (x # takeWhile ?P xs), of_list ?d))"
      by auto
    show ?thesis unfolding Cons g runs_Cons
      by (simp add: join_loop.simps ih del: of_list.simps)
  qed
qed

lemma Join_call_left_only:
  assumes "\<forall>x\<in>set A. \<exists>k. key_of K x = Inr k"
  shows "Join_call j K (of_list A) Stop =
         sconcat (map (\<lambda>g. j K (of_list g) Stop) (runs (key_of K) A))"
proof -
  from get_next_group_of_list_Inr [OF assms]
  obtain n where n: "get_next_group K (of_list A) = Inr n" ..
  from join_loop_left_only [OF assms, of j] show ?thesis
    by (simp add: Join_call_def n)
qed

lemma Join_call_right_only:
  assumes "\<forall>x\<in>set B. \<exists>k. key_of K x = Inr k"
  shows "Join_call j K Stop (of_list B) =
         sconcat (map (\<lambda>g. j K Stop (of_list g)) (runs (key_of K) B))"
  using join_loop_right_only [OF assms, of j] by (simp add: Join_call_def)

subsection \<open>The joiners on an empty side\<close>

lemma cartesian_no_rows_b: "cartesian order K sa sb (of_list as) [] = Stop"
  by (induction as) simp_all

lemma if_a_empty_Nil [simp]: "if_a_empty s [] = Stop"
  by (cases s) simp_all

lemma LeftJoiner_right_empty: "LeftJoiner order sa sb K rows_a Stop = rows_a"
  by (simp add: LeftJoiner_def)

lemma LeftJoiner_left_empty: "LeftJoiner order sa sb K Stop (of_list bs) = Stop"
  by (simp add: LeftJoiner_def)

lemma OuterJoiner_right_empty: "OuterJoiner order sa sb K rows_a Stop = rows_a"
  by (simp add: OuterJoiner_def)

lemma OuterJoiner_left_empty: "OuterJoiner order sa sb K Stop (of_list bs) = of_list bs"
  by (simp add: OuterJoiner_def)

lemma RightJoiner_left_empty: "RightJoiner order sa sb K Stop (of_list bs) = of_list bs"
  by (simp add: RightJoiner_def)

lemma RightJoiner_right_empty: "RightJoiner order sa sb K (of_list as) Stop = Stop"
  by (simp add: RightJoiner_def cartesian_no_rows_b)

lemma InnerJoiner_left_empty: "InnerJoiner order sa sb K Stop (of_list bs) = Stop"
  by (simp add: InnerJoiner_def)

lemma InnerJoiner_right_empty: "InnerJoiner order sa sb K (of_list as) Stop = Stop"
  by (simp add: InnerJoiner_def cartesian_no_rows_b)

text \<open>An \<open>order\<close> that only permutes has no choice on at most one column.\<close>

lemma order_single: "\<forall>cs. mset (order cs) = mset cs \<Longrightarrow> order [c] = [c]"
  by (metis mset_single_iff_right mset.simps(1) mset.simps(2) add_mset_eq_single)

lemma order_Nil: "\<forall>cs. mset (order cs) = mset cs \<Longrightarrow> order [] = []"
  by (metis mset_zero_iff)

subsection \<open>The merge of the two lists of groups\<close>

text \<open>\<open>sbind s f\<close>: \<^verbatim>\<open>for x in s: yield from f(x)\<close>.\<close>

fun sbind :: "'a stream \<Rightarrow> ('a \<Rightarrow> 'b stream) \<Rightarrow> 'b stream" where
  "sbind Stop f = Stop"
| "sbind (Raise e) f = Raise e"
| "sbind (Yield x s) f = sappend (f x) (sbind s f)"


text \<open>
  The specification's merge, on the lists of the groups of the two inputs, each group with
  its key: equal keys give the pair of the two groups, the smaller key gives its group
  with an empty partner, and when one list is exhausted the groups of the other follow,
  each with an empty partner. Keys are compared as the code compares them, so a pair of
  keys that cannot be ordered ends the stream of pairs with \<open>TypeError\<close>.
\<close>

fun cogroups ::
  "(val list \<times> row list) list \<Rightarrow> (val list \<times> row list) list \<Rightarrow> (row list \<times> row list) stream" where
  "cogroups [] [] = Stop"
| "cogroups ((kl, gl) # ls) [] = Yield (gl, []) (cogroups ls [])"
| "cogroups [] ((kr, gr) # rs) = Yield ([], gr) (cogroups [] rs)"
| "cogroups ((kl, gl) # ls) ((kr, gr) # rs) =
     (if kl = kr then Yield (gl, gr) (cogroups ls rs)
      else
        (case list_lt kl kr of
           Inl e \<Rightarrow> Raise e
         | Inr lt \<Rightarrow>
             if lt then Yield (gl, []) (cogroups ls ((kr, gr) # rs))
             else Yield ([], gr) (cogroups ((kl, gl) # ls) rs)))"


text \<open>The groups of a list of rows, each with the key of its rows (read off the first
  row; meant for rows that all carry the key columns).\<close>

definition key_groups :: "string list \<Rightarrow> row list \<Rightarrow> (val list \<times> row list) list" where
  "key_groups K rows = map (\<lambda>g. (projr (key_of K (hd g)), g)) (runs (key_of K) rows)"


text \<open>What \<open>get_next_group\<close> returns on such a list.\<close>

definition first_group :: "string list \<Rightarrow> row list \<Rightarrow> group option" where
  "first_group K rows =
     (case rows of
        [] \<Rightarrow> None
      | x # xs \<Rightarrow>
          Some (projr (key_of K x),
                of_list (x # takeWhile (\<lambda>y. key_of K y = key_of K x) xs),
                of_list (dropWhile (\<lambda>y. key_of K y = key_of K x) xs)))"

lemma get_next_group_first_group:
  assumes "\<forall>x\<in>set A. \<exists>k. key_of K x = Inr k"
  shows "get_next_group K (of_list A) = Inr (first_group K A)"
proof (cases A)
  case Nil
  then show ?thesis by (simp add: first_group_def)
next
  case (Cons x xs)
  from get_next_group_of_list [of x xs K] assms Cons
  obtain k where "key_of K x = Inr k" and "get_next_group K (of_list (x # xs)) =
       Inr (Some (k, of_list (x # takeWhile (\<lambda>y. key_of K y = key_of K x) xs),
          of_list (dropWhile (\<lambda>y. key_of K y = key_of K x) xs)))"
    by auto
  then show ?thesis unfolding Cons by (simp add: first_group_def del: of_list.simps)
qed

lemma key_groups_Nil [simp]: "key_groups K [] = []"
  by (simp add: key_groups_def)

lemma key_groups_Cons:
  "key_groups K (x # xs) =
     (projr (key_of K x), x # takeWhile (\<lambda>y. key_of K y = key_of K x) xs) #
     key_groups K (dropWhile (\<lambda>y. key_of K y = key_of K x) xs)"
  by (simp add: key_groups_def runs_Cons)

lemma join_loop_cogroups:
  assumes "\<forall>x\<in>set A. \<exists>k. key_of K x = Inr k" and "\<forall>x\<in>set B. \<exists>k. key_of K x = Inr k"
  shows "join_loop j K (first_group K A) (first_group K B) =
         sbind (cogroups (key_groups K A) (key_groups K B))
           (\<lambda>(ga, gb). j K (of_list ga) (of_list gb))"
  using assms
proof (induction "length A + length B" arbitrary: A B rule: less_induct)
  case less
  let ?F = "\<lambda>(ga, gb). j K (of_list ga) (of_list gb)"
  have keysD: "\<forall>y\<in>set (dropWhile P xs). \<exists>k. key_of K y = Inr k"
    if "\<forall>y\<in>set xs. \<exists>k. key_of K y = Inr k" for P and xs :: "row list"
    using that by (auto dest: set_dropWhileD)
  show ?case
  proof (cases A)
    case ANil: Nil
    show ?thesis
    proof (cases B)
      case Nil
      with ANil show ?thesis by (simp add: first_group_def join_loop.simps)
    next
      case (Cons y ys)
      let ?Q = "\<lambda>z. key_of K z = key_of K y"
      let ?dB = "dropWhile ?Q ys"
      have kB: "\<forall>z\<in>set ?dB. \<exists>k. key_of K z = Inr k"
        using less.prems(2) Cons by (intro keysD) simp
      have len: "length A + length ?dB < length A + length B"
        using Cons length_dropWhile_le [of ?Q ys] by simp
      have ih: "join_loop j K (first_group K A) (first_group K ?dB) =
         sbind (cogroups (key_groups K A) (key_groups K ?dB)) ?F"
        by (rule less.hyps [OF len less.prems(1) kB])
      have nB: "get_next_group K (of_list ?dB) = Inr (first_group K ?dB)"
        by (rule get_next_group_first_group [OF kB])
      have fA: "first_group K A = None" using ANil by (simp add: first_group_def)
      have fB: "first_group K B = Some (projr (key_of K y), of_list (y # takeWhile ?Q ys), of_list ?dB)"
        using Cons by (simp add: first_group_def)
      have lhs: "join_loop j K (first_group K A) (first_group K B) =
          sappend (j K Stop (of_list (y # takeWhile ?Q ys)))
            (join_loop j K (first_group K A) (first_group K ?dB))"
        unfolding fA fB by (simp add: join_loop.simps nB del: of_list.simps)
      have rhs: "sbind (cogroups (key_groups K A) (key_groups K B)) ?F =
          sappend (j K Stop (of_list (y # takeWhile ?Q ys)))
            (sbind (cogroups (key_groups K A) (key_groups K ?dB)) ?F)"
        unfolding ANil Cons key_groups_Cons by (simp del: of_list.simps(2))
      show ?thesis unfolding lhs rhs ih ..
    qed
  next
    case ACons: (Cons x xs)
    let ?P = "\<lambda>z. key_of K z = key_of K x"
    let ?dA = "dropWhile ?P xs"
    let ?gA = "x # takeWhile ?P xs"
    let ?kA = "projr (key_of K x)"
    have kA: "\<forall>z\<in>set ?dA. \<exists>k. key_of K z = Inr k"
      using less.prems(1) ACons by (intro keysD) simp
    have nA: "get_next_group K (of_list ?dA) = Inr (first_group K ?dA)"
      by (rule get_next_group_first_group [OF kA])
    have fA: "first_group K A = Some (?kA, of_list ?gA, of_list ?dA)"
      using ACons by (simp add: first_group_def)
    have lenA: "length ?dA + length B' < length A + length B'" for B' :: "row list"
      using ACons length_dropWhile_le [of ?P xs] by simp
    show ?thesis
    proof (cases B)
      case Nil
      have fB: "first_group K B = None" using Nil by (simp add: first_group_def)
      have ih: "join_loop j K (first_group K ?dA) (first_group K B) =
         sbind (cogroups (key_groups K ?dA) (key_groups K B)) ?F"
        by (rule less.hyps [OF lenA kA less.prems(2)])
      have lhs: "join_loop j K (first_group K A) (first_group K B) =
          sappend (j K (of_list ?gA) Stop)
            (join_loop j K (first_group K ?dA) (first_group K B))"
        unfolding fA fB by (simp add: join_loop.simps nA del: of_list.simps)
      have rhs: "sbind (cogroups (key_groups K A) (key_groups K B)) ?F =
          sappend (j K (of_list ?gA) Stop)
            (sbind (cogroups (key_groups K ?dA) (key_groups K B)) ?F)"
        unfolding ACons Nil key_groups_Cons by (simp del: of_list.simps(2))
      show ?thesis unfolding lhs rhs ih ..
    next
      case (Cons y ys)
      let ?Q = "\<lambda>z. key_of K z = key_of K y"
      let ?dB = "dropWhile ?Q ys"
      let ?gB = "y # takeWhile ?Q ys"
      let ?kB = "projr (key_of K y)"
      have kB: "\<forall>z\<in>set ?dB. \<exists>k. key_of K z = Inr k"
        using less.prems(2) Cons by (intro keysD) simp
      have nB: "get_next_group K (of_list ?dB) = Inr (first_group K ?dB)"
        by (rule get_next_group_first_group [OF kB])
      have fB: "first_group K B = Some (?kB, of_list ?gB, of_list ?dB)"
        using Cons by (simp add: first_group_def)
      have lenB: "length A' + length ?dB < length A' + length B" for A' :: "row list"
        using Cons length_dropWhile_le [of ?Q ys] by simp
      have lenAB: "length ?dA + length ?dB < length A + length B"
        using lenA [of B] lenB [of ?dA] by simp
      have ih_both: "join_loop j K (first_group K ?dA) (first_group K ?dB) =
         sbind (cogroups (key_groups K ?dA) (key_groups K ?dB)) ?F"
        by (rule less.hyps [OF lenAB kA kB])
      have ih_left: "join_loop j K (first_group K ?dA) (first_group K B) =
         sbind (cogroups (key_groups K ?dA) (key_groups K B)) ?F"
        by (rule less.hyps [OF lenA kA less.prems(2)])
      have ih_right: "join_loop j K (first_group K A) (first_group K ?dB) =
         sbind (cogroups (key_groups K A) (key_groups K ?dB)) ?F"
        by (rule less.hyps [OF lenB less.prems(1) kB])
      have lhs: "join_loop j K (first_group K A) (first_group K B) =
        (if ?kA = ?kB then
           sappend (j K (of_list ?gA) (of_list ?gB))
             (join_loop j K (first_group K ?dA) (first_group K ?dB))
         else
           (case list_lt ?kA ?kB of
              Inl e \<Rightarrow> Raise e
            | Inr lt \<Rightarrow>
                if lt then sappend (j K (of_list ?gA) Stop)
                     (join_loop j K (first_group K ?dA) (first_group K B))
                else sappend (j K Stop (of_list ?gB))
                     (join_loop j K (first_group K A) (first_group K ?dB))))"
        unfolding fA fB
        by (simp add: join_loop.simps nA nB split: sum.splits del: of_list.simps)
      have rhs: "sbind (cogroups (key_groups K A) (key_groups K B)) ?F =
        (if ?kA = ?kB then
           sappend (j K (of_list ?gA) (of_list ?gB))
             (sbind (cogroups (key_groups K ?dA) (key_groups K ?dB)) ?F)
         else
           (case list_lt ?kA ?kB of
              Inl e \<Rightarrow> Raise e
            | Inr lt \<Rightarrow>
                if lt then sappend (j K (of_list ?gA) Stop)
                     (sbind (cogroups (key_groups K ?dA) (key_groups K B)) ?F)
                else sappend (j K Stop (of_list ?gB))
                     (sbind (cogroups (key_groups K A) (key_groups K ?dB)) ?F)))"
        unfolding ACons Cons key_groups_Cons
        by (simp split: sum.splits del: of_list.simps(2))
      show ?thesis unfolding lhs rhs ih_both ih_left ih_right ..
    qed
  qed
qed

lemma Join_call_cogroups:
  assumes "\<forall>x\<in>set A. \<exists>k. key_of K x = Inr k" and "\<forall>x\<in>set B. \<exists>k. key_of K x = Inr k"
  shows "Join_call j K (of_list A) (of_list B) =
         sbind (cogroups (key_groups K A) (key_groups K B))
           (\<lambda>(ga, gb). j K (of_list ga) (of_list gb))"
  using join_loop_cogroups [OF assms, of j]
  by (simp add: Join_call_def get_next_group_first_group [OF assms(1)]
      get_next_group_first_group [OF assms(2)])

text \<open>The joiners on two groups given as lists.\<close>

lemma LeftJoiner_of_list:
  "LeftJoiner order sa sb K (of_list ga) (of_list gb) =
     (if gb = [] then of_list ga
      else if ga = [] then Stop
      else cartesian order K sa sb (of_list ga) gb)"
  by (simp add: LeftJoiner_def)

lemma OuterJoiner_of_list:
  "OuterJoiner order sa sb K (of_list ga) (of_list gb) =
     (if gb = [] then of_list ga
      else if ga = [] then of_list gb
      else cartesian order K sa sb (of_list ga) gb)"
  by (cases ga) (simp_all add: OuterJoiner_def)

lemma RightJoiner_of_list:
  "RightJoiner order sa sb K (of_list ga) (of_list gb) =
     (if ga = [] then of_list gb
      else cartesian order K sa sb (of_list ga) gb)"
  by (cases ga) (simp_all add: RightJoiner_def)

lemma InnerJoiner_of_list:
  "InnerJoiner order sa sb K (of_list ga) (of_list gb) =
     cartesian order K sa sb (of_list ga) gb"
  by (simp add: InnerJoiner_def)

section \<open>The joiners on the specification's scenarios\<close>

text \<open>
  C1. An inner join on \<open>id\<close> of left \<open>[{id:1,v:"a"},{id:2,v:"b"}]\<close> with right
  \<open>[{id:1,v:"x"},{id:1,v:"y"},{id:3,v:"z"}]\<close> and the default suffixes, for every order in
  which the colliding columns may be visited. The first matched pair comes out as
  \<open>{id:1,v_1:"a",v_2:"x"}\<close>. The renaming has then changed the left row itself to
  \<open>{id:1,v_1:"a"}\<close>: for the second right row no column collides any more, and the row
  comes out as \<open>{id:1,v:"y",v_1:"a"}\<close>, which is not the dict \<open>{id:1,v_1:"a",v_2:"y"}\<close>.
\<close>

theorem InnerJoiner_second_match_not_renamed:
  assumes "\<forall>cs. mset (order cs) = mset cs"
  shows "Join_call (InnerJoiner order ''_1'' ''_2'') [''id'']
     (of_list [[(''id'', IntV 1), (''v'', StrV ''a'')], [(''id'', IntV 2), (''v'', StrV ''b'')]])
     (of_list [[(''id'', IntV 1), (''v'', StrV ''x'')],
               [(''id'', IntV 1), (''v'', StrV ''y'')],
               [(''id'', IntV 3), (''v'', StrV ''z'')]]) =
   of_list [[(''id'', IntV 1), (''v_2'', StrV ''x''), (''v_1'', StrV ''a'')],
            [(''id'', IntV 1), (''v'', StrV ''y''), (''v_1'', StrV ''a'')]] \<and>
   map_of [(''id'', IntV 1), (''v_2'', StrV ''x''), (''v_1'', StrV ''a'')] =
   map_of [(''id'', IntV 1), (''v_1'', StrV ''a''), (''v_2'', StrV ''x'')] \<and>
   map_of [(''id'', IntV 1), (''v'', StrV ''y''), (''v_1'', StrV ''a'')] \<noteq>
   map_of [(''id'', IntV 1), (''v_1'', StrV ''a''), (''v_2'', StrV ''y'')]"
proof (intro conjI)
  show "Join_call (InnerJoiner order ''_1'' ''_2'') [''id'']
     (of_list [[(''id'', IntV 1), (''v'', StrV ''a'')], [(''id'', IntV 2), (''v'', StrV ''b'')]])
     (of_list [[(''id'', IntV 1), (''v'', StrV ''x'')],
               [(''id'', IntV 1), (''v'', StrV ''y'')],
               [(''id'', IntV 3), (''v'', StrV ''z'')]]) =
   of_list [[(''id'', IntV 1), (''v_2'', StrV ''x''), (''v_1'', StrV ''a'')],
            [(''id'', IntV 1), (''v'', StrV ''y''), (''v_1'', StrV ''a'')]]"
    by (simp add: Join_call_def get_next_group_def join_loop.simps dict_get_def InnerJoiner_def
        merge_rows_def same_cols_def dict_keys_def order_single [OF assms] order_Nil [OF assms]
        dict_pop_def dict_set_def dict_update_def)
  show "map_of [(''id'', IntV 1), (''v_2'', StrV ''x''), (''v_1'', StrV ''a'')] =
        map_of [(''id'', IntV 1), (''v_1'', StrV ''a''), (''v_2'', StrV ''x'')]"
    by (rule ext) simp
  show "map_of [(''id'', IntV 1), (''v'', StrV ''y''), (''v_1'', StrV ''a'')] \<noteq>
        map_of [(''id'', IntV 1), (''v_1'', StrV ''a''), (''v_2'', StrV ''y'')]"
  proof
    assume "map_of [(''id'', IntV 1), (''v'', StrV ''y''), (''v_1'', StrV ''a'')] =
        map_of [(''id'', IntV 1), (''v_1'', StrV ''a''), (''v_2'', StrV ''y'')]"
    then have "map_of [(''id'', IntV 1), (''v'', StrV ''y''), (''v_1'', StrV ''a'')] ''v'' =
        map_of [(''id'', IntV 1), (''v_1'', StrV ''a''), (''v_2'', StrV ''y'')] ''v''"
      by (rule arg_cong)
    then show False by simp
  qed
qed

theorem InnerJoiner_second_match_not_renamed_witness:
  "drain (Join_call (InnerJoiner (\<lambda>cs. cs) ''_1'' ''_2'') [''id'']
     (of_list [[(''id'', IntV 1), (''v'', StrV ''a'')], [(''id'', IntV 2), (''v'', StrV ''b'')]])
     (of_list [[(''id'', IntV 1), (''v'', StrV ''x'')],
               [(''id'', IntV 1), (''v'', StrV ''y'')],
               [(''id'', IntV 3), (''v'', StrV ''z'')]])) =
   Inr [[(''id'', IntV 1), (''v_2'', StrV ''x''), (''v_1'', StrV ''a'')],
        [(''id'', IntV 1), (''v'', StrV ''y''), (''v_1'', StrV ''a'')]]"
proof -
  have h: "\<forall>cs. mset ((\<lambda>cs. cs) cs) = mset (cs :: string list)" by simp
  from InnerJoiner_second_match_not_renamed [OF h] show ?thesis by simp
qed


text \<open>
  C7. A \<open>LeftJoiner\<close> whose right group is empty passes the rows of the left group
  through unchanged, and one whose left group is empty emits nothing. A left join of two
  inputs whose rows carry the key columns is the merge of their groups with, for each
  pair, the left group as it is when the right one is empty, nothing when the left one
  is empty, and the joiner's loop over the two groups otherwise. So a left join
  against an exhausted right stream returns the left stream as it is, a left join of an
  exhausted left stream returns nothing, and left \<open>[{id:2,v:"b"}]\<close> joined on \<open>id\<close> with
  right \<open>[{id:1,v:"x"},{id:1,v:"y"},{id:3,v:"z"}]\<close> yields exactly \<open>[{id:2,v:"b"}]\<close>.
\<close>

theorem LeftJoiner_unmatched:
  "LeftJoiner order sa sb K rows_a Stop = rows_a \<and>
   LeftJoiner order sa sb K Stop (of_list bs) = Stop \<and>
   ((\<forall>x\<in>set A. \<exists>k. key_of K x = Inr k) \<and> (\<forall>x\<in>set B. \<exists>k. key_of K x = Inr k) \<longrightarrow>
      Join_call (LeftJoiner order sa sb) K (of_list A) (of_list B) =
        sbind (cogroups (key_groups K A) (key_groups K B))
          (\<lambda>(ga, gb). if gb = [] then of_list ga
                       else if ga = [] then Stop
                       else cartesian order K sa sb (of_list ga) gb)) \<and>
   ((\<forall>x\<in>set A. \<exists>k. key_of K x = Inr k) \<longrightarrow>
      Join_call (LeftJoiner order sa sb) K (of_list A) Stop = of_list A) \<and>
   ((\<forall>x\<in>set B. \<exists>k. key_of K x = Inr k) \<longrightarrow>
      Join_call (LeftJoiner order sa sb) K Stop (of_list B) = Stop) \<and>
   Join_call (LeftJoiner order ''_1'' ''_2'') [''id'']
     (of_list [[(''id'', IntV 2), (''v'', StrV ''b'')]])
     (of_list [[(''id'', IntV 1), (''v'', StrV ''x'')],
               [(''id'', IntV 1), (''v'', StrV ''y'')],
               [(''id'', IntV 3), (''v'', StrV ''z'')]]) =
   of_list [[(''id'', IntV 2), (''v'', StrV ''b'')]]"
proof (intro conjI impI)
  show "LeftJoiner order sa sb K rows_a Stop = rows_a"
    by (rule LeftJoiner_right_empty)
  show "LeftJoiner order sa sb K Stop (of_list bs) = Stop"
    by (rule LeftJoiner_left_empty)
  show "Join_call (LeftJoiner order sa sb) K (of_list A) (of_list B) =
        sbind (cogroups (key_groups K A) (key_groups K B))
          (\<lambda>(ga, gb). if gb = [] then of_list ga
                       else if ga = [] then Stop
                       else cartesian order K sa sb (of_list ga) gb)"
    if "(\<forall>x\<in>set A. \<exists>k. key_of K x = Inr k) \<and> (\<forall>x\<in>set B. \<exists>k. key_of K x = Inr k)"
    unfolding Join_call_cogroups [OF conjunct1 [OF that] conjunct2 [OF that]]
      LeftJoiner_of_list ..
  show "Join_call (LeftJoiner order sa sb) K (of_list A) Stop = of_list A"
    if "\<forall>x\<in>set A. \<exists>k. key_of K x = Inr k"
    using Join_call_left_only [OF that, of "LeftJoiner order sa sb"]
    by (simp add: LeftJoiner_right_empty sconcat_of_list concat_runs)
  show "Join_call (LeftJoiner order sa sb) K Stop (of_list B) = Stop"
    if "\<forall>x\<in>set B. \<exists>k. key_of K x = Inr k"
    using Join_call_right_only [OF that, of "LeftJoiner order sa sb"]
    by (simp add: LeftJoiner_left_empty sconcat_map_Stop)
  show "Join_call (LeftJoiner order ''_1'' ''_2'') [''id'']
     (of_list [[(''id'', IntV 2), (''v'', StrV ''b'')]])
     (of_list [[(''id'', IntV 1), (''v'', StrV ''x'')],
               [(''id'', IntV 1), (''v'', StrV ''y'')],
               [(''id'', IntV 3), (''v'', StrV ''z'')]]) =
   of_list [[(''id'', IntV 2), (''v'', StrV ''b'')]]"
    by (simp add: Join_call_def get_next_group_def join_loop.simps dict_get_def LeftJoiner_def)
qed

theorem LeftJoiner_unmatched_witness:
  "Join_call (LeftJoiner (\<lambda>cs. cs) ''_1'' ''_2'') [''id'']
     (of_list [[(''id'', IntV 2), (''v'', StrV ''b'')]]) Stop =
   of_list [[(''id'', IntV 2), (''v'', StrV ''b'')]] \<and>
   Join_call (LeftJoiner (\<lambda>cs. cs) ''_1'' ''_2'') [''id''] Stop
     (of_list [[(''id'', IntV 1), (''v'', StrV ''x'')],
               [(''id'', IntV 1), (''v'', StrV ''y'')],
               [(''id'', IntV 3), (''v'', StrV ''z'')]]) = Stop \<and>
   Join_call (LeftJoiner (\<lambda>cs. cs) ''_1'' ''_2'') [''id'']
     (of_list [[(''id'', IntV 2), (''v'', StrV ''b'')]])
     (of_list [[(''id'', IntV 1), (''v'', StrV ''x'')],
               [(''id'', IntV 1), (''v'', StrV ''y'')],
               [(''id'', IntV 3), (''v'', StrV ''z'')]]) =
   of_list [[(''id'', IntV 2), (''v'', StrV ''b'')]] \<and>
   Join_call (LeftJoiner (\<lambda>cs. cs) ''_1'' ''_2'') [''id'']
     (of_list [[(''id'', IntV 2), (''v'', StrV ''b'')]])
     (of_list [[(''id'', IntV 1), (''v'', StrV ''x'')],
               [(''id'', IntV 1), (''v'', StrV ''y'')],
               [(''id'', IntV 3), (''v'', StrV ''z'')]]) =
   sbind
     (of_list [([], [[(''id'', IntV 1), (''v'', StrV ''x'')], [(''id'', IntV 1), (''v'', StrV ''y'')]]),
               ([[(''id'', IntV 2), (''v'', StrV ''b'')]], []),
               ([], [[(''id'', IntV 3), (''v'', StrV ''z'')]])])
     (\<lambda>(ga, gb). if gb = [] then of_list ga
                  else if ga = [] then Stop
                  else cartesian (\<lambda>cs. cs) [''id''] ''_1'' ''_2'' (of_list ga) gb)"
proof -
  let ?A = "[[(''id'', IntV 2), (''v'', StrV ''b'')]]"
  let ?B = "[[(''id'', IntV 1), (''v'', StrV ''x'')],
             [(''id'', IntV 1), (''v'', StrV ''y'')],
             [(''id'', IntV 3), (''v'', StrV ''z'')]]"
  have a: "\<forall>x\<in>set ?A. \<exists>k. key_of [''id''] x = Inr k" by (simp add: dict_get_def)
  have b: "\<forall>x\<in>set ?B. \<exists>k. key_of [''id''] x = Inr k" by (simp add: dict_get_def)
  have c: "cogroups (key_groups [''id''] ?A) (key_groups [''id''] ?B) =
     of_list [([], [[(''id'', IntV 1), (''v'', StrV ''x'')], [(''id'', IntV 1), (''v'', StrV ''y'')]]),
              ([[(''id'', IntV 2), (''v'', StrV ''b'')]], []),
              ([], [[(''id'', IntV 3), (''v'', StrV ''z'')]])]"
    by (simp add: key_groups_def runs_def dict_get_def)
  from LeftJoiner_unmatched [of "\<lambda>cs. cs" "''_1''" "''_2''" "[''id'']" Stop "[]" ?A ?B] a b
  show ?thesis unfolding c by blast
qed


text \<open>
  C8. An \<open>OuterJoiner\<close> and a \<open>RightJoiner\<close> whose left group is empty emit the rows of
  the right group unchanged: no suffix is put on a column, also where the left stream
  has a column of that name under another key. An \<open>OuterJoiner\<close> whose right group is
  empty passes the left rows through unchanged. An outer and a right join of two inputs
  whose rows carry the key columns are the merge of their groups with, for each pair,
  the non-empty group as it is when the other one is empty (for the right join: when the
  left one is), and the joiner's loop over the two groups otherwise.
\<close>

theorem Outer_Right_pass_through:
  "OuterJoiner order sa sb K Stop (of_list bs) = of_list bs \<and>
   RightJoiner order sa sb K Stop (of_list bs) = of_list bs \<and>
   OuterJoiner order sa sb K rows_a Stop = rows_a \<and>
   ((\<forall>x\<in>set B. \<exists>k. key_of K x = Inr k) \<longrightarrow>
      Join_call (OuterJoiner order sa sb) K Stop (of_list B) = of_list B \<and>
      Join_call (RightJoiner order sa sb) K Stop (of_list B) = of_list B) \<and>
   ((\<forall>x\<in>set A. \<exists>k. key_of K x = Inr k) \<longrightarrow>
      Join_call (OuterJoiner order sa sb) K (of_list A) Stop = of_list A) \<and>
   ((\<forall>x\<in>set A. \<exists>k. key_of K x = Inr k) \<and> (\<forall>x\<in>set B. \<exists>k. key_of K x = Inr k) \<longrightarrow>
      Join_call (OuterJoiner order sa sb) K (of_list A) (of_list B) =
        sbind (cogroups (key_groups K A) (key_groups K B))
          (\<lambda>(ga, gb). if gb = [] then of_list ga
                       else if ga = [] then of_list gb
                       else cartesian order K sa sb (of_list ga) gb) \<and>
      Join_call (RightJoiner order sa sb) K (of_list A) (of_list B) =
        sbind (cogroups (key_groups K A) (key_groups K B))
          (\<lambda>(ga, gb). if ga = [] then of_list gb
                       else cartesian order K sa sb (of_list ga) gb)) \<and>
   Join_call (RightJoiner order ''_1'' ''_2'') [''id'']
     (of_list [[(''id'', IntV 2), (''v'', StrV ''b'')]])
     (of_list [[(''id'', IntV 1), (''v'', StrV ''x'')],
               [(''id'', IntV 1), (''v'', StrV ''y'')],
               [(''id'', IntV 3), (''v'', StrV ''z'')]]) =
   of_list [[(''id'', IntV 1), (''v'', StrV ''x'')],
            [(''id'', IntV 1), (''v'', StrV ''y'')],
            [(''id'', IntV 3), (''v'', StrV ''z'')]] \<and>
   Join_call (OuterJoiner order ''_1'' ''_2'') [''id'']
     (of_list [[(''id'', IntV 2), (''v'', StrV ''b'')]])
     (of_list [[(''id'', IntV 1), (''v'', StrV ''x'')],
               [(''id'', IntV 1), (''v'', StrV ''y'')],
               [(''id'', IntV 3), (''v'', StrV ''z'')]]) =
   of_list [[(''id'', IntV 1), (''v'', StrV ''x'')],
            [(''id'', IntV 1), (''v'', StrV ''y'')],
            [(''id'', IntV 2), (''v'', StrV ''b'')],
            [(''id'', IntV 3), (''v'', StrV ''z'')]]"
proof (intro conjI impI)
  show "OuterJoiner order sa sb K Stop (of_list bs) = of_list bs"
    by (rule OuterJoiner_left_empty)
  show "RightJoiner order sa sb K Stop (of_list bs) = of_list bs"
    by (rule RightJoiner_left_empty)
  show "OuterJoiner order sa sb K rows_a Stop = rows_a"
    by (rule OuterJoiner_right_empty)
  show "Join_call (OuterJoiner order sa sb) K Stop (of_list B) = of_list B"
    if "\<forall>x\<in>set B. \<exists>k. key_of K x = Inr k"
    using Join_call_right_only [OF that, of "OuterJoiner order sa sb"]
    by (simp add: OuterJoiner_left_empty sconcat_of_list concat_runs)
  show "Join_call (RightJoiner order sa sb) K Stop (of_list B) = of_list B"
    if "\<forall>x\<in>set B. \<exists>k. key_of K x = Inr k"
    using Join_call_right_only [OF that, of "RightJoiner order sa sb"]
    by (simp add: RightJoiner_left_empty sconcat_of_list concat_runs)
  show "Join_call (OuterJoiner order sa sb) K (of_list A) Stop = of_list A"
    if "\<forall>x\<in>set A. \<exists>k. key_of K x = Inr k"
    using Join_call_left_only [OF that, of "OuterJoiner order sa sb"]
    by (simp add: OuterJoiner_right_empty sconcat_of_list concat_runs)
  show "Join_call (OuterJoiner order sa sb) K (of_list A) (of_list B) =
        sbind (cogroups (key_groups K A) (key_groups K B))
          (\<lambda>(ga, gb). if gb = [] then of_list ga
                       else if ga = [] then of_list gb
                       else cartesian order K sa sb (of_list ga) gb)"
    if "(\<forall>x\<in>set A. \<exists>k. key_of K x = Inr k) \<and> (\<forall>x\<in>set B. \<exists>k. key_of K x = Inr k)"
    unfolding Join_call_cogroups [OF conjunct1 [OF that] conjunct2 [OF that]]
      OuterJoiner_of_list ..
  show "Join_call (RightJoiner order sa sb) K (of_list A) (of_list B) =
        sbind (cogroups (key_groups K A) (key_groups K B))
          (\<lambda>(ga, gb). if ga = [] then of_list gb
                       else cartesian order K sa sb (of_list ga) gb)"
    if "(\<forall>x\<in>set A. \<exists>k. key_of K x = Inr k) \<and> (\<forall>x\<in>set B. \<exists>k. key_of K x = Inr k)"
    unfolding Join_call_cogroups [OF conjunct1 [OF that] conjunct2 [OF that]]
      RightJoiner_of_list ..
  show "Join_call (RightJoiner order ''_1'' ''_2'') [''id'']
     (of_list [[(''id'', IntV 2), (''v'', StrV ''b'')]])
     (of_list [[(''id'', IntV 1), (''v'', StrV ''x'')],
               [(''id'', IntV 1), (''v'', StrV ''y'')],
               [(''id'', IntV 3), (''v'', StrV ''z'')]]) =
   of_list [[(''id'', IntV 1), (''v'', StrV ''x'')],
            [(''id'', IntV 1), (''v'', StrV ''y'')],
            [(''id'', IntV 3), (''v'', StrV ''z'')]]"
    by (simp add: Join_call_def get_next_group_def join_loop.simps dict_get_def RightJoiner_def)
  show "Join_call (OuterJoiner order ''_1'' ''_2'') [''id'']
     (of_list [[(''id'', IntV 2), (''v'', StrV ''b'')]])
     (of_list [[(''id'', IntV 1), (''v'', StrV ''x'')],
               [(''id'', IntV 1), (''v'', StrV ''y'')],
               [(''id'', IntV 3), (''v'', StrV ''z'')]]) =
   of_list [[(''id'', IntV 1), (''v'', StrV ''x'')],
            [(''id'', IntV 1), (''v'', StrV ''y'')],
            [(''id'', IntV 2), (''v'', StrV ''b'')],
            [(''id'', IntV 3), (''v'', StrV ''z'')]]"
    by (simp add: Join_call_def get_next_group_def join_loop.simps dict_get_def OuterJoiner_def)
qed

theorem Outer_Right_pass_through_witness:
  "Join_call (OuterJoiner (\<lambda>cs. cs) ''_1'' ''_2'') [''id''] Stop
     (of_list [[(''id'', IntV 1), (''v'', StrV ''x'')], [(''id'', IntV 3), (''v'', StrV ''z'')]]) =
   of_list [[(''id'', IntV 1), (''v'', StrV ''x'')], [(''id'', IntV 3), (''v'', StrV ''z'')]] \<and>
   Join_call (RightJoiner (\<lambda>cs. cs) ''_1'' ''_2'') [''id''] Stop
     (of_list [[(''id'', IntV 1), (''v'', StrV ''x'')], [(''id'', IntV 3), (''v'', StrV ''z'')]]) =
   of_list [[(''id'', IntV 1), (''v'', StrV ''x'')], [(''id'', IntV 3), (''v'', StrV ''z'')]] \<and>
   Join_call (OuterJoiner (\<lambda>cs. cs) ''_1'' ''_2'') [''id'']
     (of_list [[(''id'', IntV 2), (''v'', StrV ''b'')]]) Stop =
   of_list [[(''id'', IntV 2), (''v'', StrV ''b'')]] \<and>
   Join_call (OuterJoiner (\<lambda>cs. cs) ''_1'' ''_2'') [''id'']
     (of_list [[(''id'', IntV 2), (''v'', StrV ''b'')]])
     (of_list [[(''id'', IntV 1), (''v'', StrV ''x'')], [(''id'', IntV 3), (''v'', StrV ''z'')]]) =
   sbind
     (of_list [([], [[(''id'', IntV 1), (''v'', StrV ''x'')]]),
               ([[(''id'', IntV 2), (''v'', StrV ''b'')]], []),
               ([], [[(''id'', IntV 3), (''v'', StrV ''z'')]])])
     (\<lambda>(ga, gb). if gb = [] then of_list ga
                  else if ga = [] then of_list gb
                  else cartesian (\<lambda>cs. cs) [''id''] ''_1'' ''_2'' (of_list ga) gb) \<and>
   Join_call (RightJoiner (\<lambda>cs. cs) ''_1'' ''_2'') [''id'']
     (of_list [[(''id'', IntV 2), (''v'', StrV ''b'')]])
     (of_list [[(''id'', IntV 1), (''v'', StrV ''x'')], [(''id'', IntV 3), (''v'', StrV ''z'')]]) =
   sbind
     (of_list [([], [[(''id'', IntV 1), (''v'', StrV ''x'')]]),
               ([[(''id'', IntV 2), (''v'', StrV ''b'')]], []),
               ([], [[(''id'', IntV 3), (''v'', StrV ''z'')]])])
     (\<lambda>(ga, gb). if ga = [] then of_list gb
                  else cartesian (\<lambda>cs. cs) [''id''] ''_1'' ''_2'' (of_list ga) gb)"
proof -
  let ?A = "[[(''id'', IntV 2), (''v'', StrV ''b'')]]"
  let ?B = "[[(''id'', IntV 1), (''v'', StrV ''x'')], [(''id'', IntV 3), (''v'', StrV ''z'')]]"
  have a: "\<forall>x\<in>set ?A. \<exists>k. key_of [''id''] x = Inr k" by (simp add: dict_get_def)
  have b: "\<forall>x\<in>set ?B. \<exists>k. key_of [''id''] x = Inr k" by (simp add: dict_get_def)
  have c: "cogroups (key_groups [''id''] ?A) (key_groups [''id''] ?B) =
     of_list [([], [[(''id'', IntV 1), (''v'', StrV ''x'')]]),
              ([[(''id'', IntV 2), (''v'', StrV ''b'')]], []),
              ([], [[(''id'', IntV 3), (''v'', StrV ''z'')]])]"
    by (simp add: key_groups_def runs_def dict_get_def)
  from Outer_Right_pass_through [of "\<lambda>cs. cs" "''_1''" "''_2''" "[''id'']" "[]" Stop ?B ?A] a b
  show ?thesis unfolding c by blast
qed

section \<open>An empty key tuple\<close>

text \<open>\<open>Count.__call__\<close>, the reducer that \<open>inverted_index_graph\<close> runs with no keys:
  \<^verbatim>\<open>row = {}
  new_row = {self.column: 0}
  for row in rows:
      new_row[self.column] += 1
  for key in group_key:
      new_row[key] = row[key]
  yield new_row\<close>\<close>

fun count_loop :: "row stream \<Rightarrow> row \<Rightarrow> int \<Rightarrow> error + (row \<times> int)" where
  "count_loop Stop row n = Inr (row, n)"
| "count_loop (Raise e) row n = Inl e"
| "count_loop (Yield r rows) row n = count_loop rows r (n + 1)"

fun copy_keys :: "string list \<Rightarrow> row \<Rightarrow> row \<Rightarrow> error + row" where
  "copy_keys [] row new_row = Inr new_row"
| "copy_keys (key # ks) row new_row =
     (case dict_get row key of
        Inl e \<Rightarrow> Inl e
      | Inr v \<Rightarrow> copy_keys ks row (dict_set new_row key v))"

definition Count :: "string \<Rightarrow> reducer" where
  "Count column group_key rows =
     (case count_loop rows [] 0 of
        Inl e \<Rightarrow> Raise e
      | Inr (row, n) \<Rightarrow>
          (case copy_keys group_key row [(column, IntV n)] of
             Inl e \<Rightarrow> Raise e
           | Inr new_row \<Rightarrow> Yield new_row Stop))"

lemma grouper_no_keys: "grouper [] [] (of_list xs) = (of_list xs, Stop)"
  by (induction xs) auto

lemma get_next_group_no_keys:
  "get_next_group [] (of_list (x # xs)) = Inr (Some ([], of_list (x # xs), Stop))"
  by (simp add: get_next_group_def grouper_no_keys)

lemma dropWhile_True [simp]: "dropWhile (\<lambda>y. True) xs = []"
  by (induction xs) auto

lemma runs_no_keys: "S \<noteq> [] \<Longrightarrow> runs (key_of []) S = [S]"
  by (cases S) (simp_all add: runs_Cons)

lemma Reduce_call_no_keys:
  assumes "S \<noteq> []"
  shows "Reduce_call r [] (of_list S) = r [] (of_list S)"
proof -
  from assms obtain x xs where S: "S = x # xs" by (cases S) auto
  show ?thesis unfolding S
    by (simp add: Reduce_call.simps [of r "[]"] get_next_group_no_keys del: of_list.simps)
qed

lemma Join_call_no_keys:
  assumes "A \<noteq> [] \<or> B \<noteq> []"
  shows "Join_call j [] (of_list A) (of_list B) = j [] (of_list A) (of_list B)"
proof (cases A)
  case Nil
  with assms obtain y ys where B: "B = y # ys" by (cases B) auto
  show ?thesis unfolding Nil B
    by (simp add: Join_call_def get_next_group_no_keys join_loop.simps del: of_list.simps(2))
next
  case (Cons x xs)
  show ?thesis
  proof (cases B)
    case Nil
    show ?thesis unfolding Cons Nil
      by (simp add: Join_call_def get_next_group_no_keys join_loop.simps del: of_list.simps(2))
  next
    case (Cons y ys)
    show ?thesis unfolding \<open>A = x # xs\<close> Cons
      by (simp add: Join_call_def get_next_group_no_keys join_loop.simps del: of_list.simps)
  qed
qed


text \<open>
  C10. With an empty key tuple every row has the key \<open>[]\<close>. A non-empty stream is then a
  single group: \<open>Reduce\<close> is one call of the reducer on the whole stream, and \<open>Join\<close>, when
  one of its streams has a row, is one call of the joiner on the two whole streams. (An
  exhausted stream has no group: the reducer is not called on it, and neither is the
  joiner when both streams are exhausted.)
\<close>

theorem empty_key_tuple_one_group:
  "key_of [] row = Inr [] \<and>
   (S \<noteq> [] \<longrightarrow>
      runs (key_of []) S = [S] \<and> Reduce_call r [] (of_list S) = r [] (of_list S)) \<and>
   (A \<noteq> [] \<or> B \<noteq> [] \<longrightarrow>
      Join_call j [] (of_list A) (of_list B) = j [] (of_list A) (of_list B))"
  using runs_no_keys [of S] Reduce_call_no_keys [of S r] Join_call_no_keys [of A B j]
  by simp

theorem empty_key_tuple_one_group_witness:
  "Reduce_call (Count ''total'') []
     (of_list [[(''doc_id'', IntV 1)], [(''doc_id'', IntV 2)], [(''doc_id'', IntV 3)]]) =
   of_list [[(''total'', IntV 3)]] \<and>
   Join_call (InnerJoiner (\<lambda>cs. cs) ''_1'' ''_2'') []
     (of_list [[(''text'', StrV ''a''), (''doc_count'', IntV 2)],
               [(''text'', StrV ''b''), (''doc_count'', IntV 1)]])
     (of_list [[(''total'', IntV 3)]]) =
   of_list [[(''total'', IntV 3), (''text'', StrV ''a''), (''doc_count'', IntV 2)],
            [(''total'', IntV 3), (''text'', StrV ''b''), (''doc_count'', IntV 1)]]"
proof -
  let ?S = "[[(''doc_id'', IntV 1)], [(''doc_id'', IntV 2)], [(''doc_id'', IntV 3)]]"
  let ?A = "[[(''text'', StrV ''a''), (''doc_count'', IntV 2)],
             [(''text'', StrV ''b''), (''doc_count'', IntV 1)]]"
  let ?B = "[[(''total'', IntV 3)]]"
  have s: "?S \<noteq> []" and ab: "?A \<noteq> [] \<or> ?B \<noteq> []" by simp_all
  from empty_key_tuple_one_group [of "[]" ?S "Count ''total''" ?A ?B
      "InnerJoiner (\<lambda>cs. cs) ''_1'' ''_2''"] s ab
  have "Reduce_call (Count ''total'') [] (of_list ?S) = Count ''total'' [] (of_list ?S)"
    and "Join_call (InnerJoiner (\<lambda>cs. cs) ''_1'' ''_2'') [] (of_list ?A) (of_list ?B) =
         InnerJoiner (\<lambda>cs. cs) ''_1'' ''_2'' [] (of_list ?A) (of_list ?B)"
    by blast+
  then show ?thesis
    by (simp add: Count_def InnerJoiner_def merge_rows_def same_cols_def dict_keys_def
        dict_update_def dict_set_def)
qed

section \<open>Map\<close>

text \<open>
  A mapper is a generator over one row. Seen from the stream it is a function from the
  row to what it yields. \<open>Map.__call__\<close>:
  \<^verbatim>\<open>for row in rows:
      yield from self.mapper(deepcopy(row))\<close>
\<close>

type_synonym mapper = "row \<Rightarrow> row stream"

fun Map_call :: "mapper \<Rightarrow> row stream \<Rightarrow> row stream" where
  "Map_call m Stop = Stop"
| "Map_call m (Raise e) = Raise e"
| "Map_call m (Yield row rows) = sappend (m row) (Map_call m rows)"

subsection \<open>Rows as objects\<close>

text \<open>
  Most mappers change their argument in place and yield it. To see what that does to the
  rows of the input, rows are objects in a store: the store is the list of all row objects
  made so far, an address is an index into it, and the input stream is a stream of
  addresses (an address may occur more than once). A mapper that works in place is given
  the contents of its argument and returns the rows it yields, as they are when yielded,
  together with the contents it leaves its argument with. \<open>deepcopy\<close> makes a new object
  with the contents of the old one.
\<close>

type_synonym addr = nat

type_synonym heap = "row list"

type_synonym inplace_mapper = "row \<Rightarrow> row stream \<times> row"

definition deepcopy :: "addr \<Rightarrow> heap \<Rightarrow> addr \<times> heap" where
  "deepcopy a h = (length h, h @ [h ! a])"

fun raises :: "'a stream \<Rightarrow> bool" where
  "raises Stop = False"
| "raises (Raise e) = True"
| "raises (Yield x s) = raises s"

text \<open>\<open>Map.__call__\<close> on the store: the rows it yields, and the store it leaves. When
  the mapper raises, the loop ends there.\<close>

fun Map_heap :: "inplace_mapper \<Rightarrow> addr stream \<Rightarrow> heap \<Rightarrow> row stream \<times> heap" where
  "Map_heap m Stop h = (Stop, h)"
| "Map_heap m (Raise e) h = (Raise e, h)"
| "Map_heap m (Yield a rows) h =
     (case deepcopy a h of
        (c, h1) \<Rightarrow>
          (case m (h1 ! c) of
             (out, row') \<Rightarrow>
               if raises out then (out, h1[c := row'])
               else (case Map_heap m rows (h1[c := row']) of
                       (rest, h3) \<Rightarrow> (sappend out rest, h3))))"

text \<open>\<open>DummyMapper\<close> (\<^verbatim>\<open>yield row\<close>) and \<open>BinaryArithmeticOperation\<close>
  (\<^verbatim>\<open>row[self.column] = self.operation(row); yield row\<close>), which writes into its
  argument. \<open>mul_columns\<close> is the operation of the repository's tests,
  \<^verbatim>\<open>lambda row: row['first'] * row['second']\<close>.\<close>

definition DummyMapper :: inplace_mapper where
  "DummyMapper row = (Yield row Stop, row)"

definition BinaryArithmeticOperation :: "(row \<Rightarrow> error + val) \<Rightarrow> string \<Rightarrow> inplace_mapper" where
  "BinaryArithmeticOperation operation column row =
     (case operation row of
        Inl e \<Rightarrow> (Raise e, row)
      | Inr v \<Rightarrow> (Yield (dict_set row column v) Stop, dict_set row column v))"

fun py_mul :: "val \<Rightarrow> val \<Rightarrow> error + val" where
  "py_mul (IntV a) (IntV b) = Inr (IntV (a * b))"
| "py_mul (IntV n) (StrV s) = Inr (StrV (concat (replicate (nat n) s)))"
| "py_mul (StrV s) (IntV n) = Inr (StrV (concat (replicate (nat n) s)))"
| "py_mul (StrV s) (StrV t) = Inl TypeError"

definition mul_columns :: "string \<Rightarrow> string \<Rightarrow> row \<Rightarrow> error + val" where
  "mul_columns c1 c2 row =
     (case dict_get row c1 of
        Inl e \<Rightarrow> Inl e
      | Inr x \<Rightarrow> (case dict_get row c2 of Inl e \<Rightarrow> Inl e | Inr y \<Rightarrow> py_mul x y))"

lemma sappend_raises: "raises s \<Longrightarrow> sappend s t = s"
  by (induction s) auto

lemma Map_call_of_list: "Map_call f (of_list rows) = sconcat (map f rows)"
  by (induction rows) auto

lemma Map_heap_frame:
  assumes "\<forall>a\<in>set_stream S. a < length h"
  shows "fst (Map_heap m S h) = Map_call (\<lambda>row. fst (m row)) (map_stream (\<lambda>a. h ! a) S) \<and>
         length h \<le> length (snd (Map_heap m S h)) \<and>
         (\<forall>a<length h. snd (Map_heap m S h) ! a = h ! a)"
  using assms
proof (induction S arbitrary: h)
  case Stop
  then show ?case by simp
next
  case (Raise e)
  then show ?case by simp
next
  case (Yield a rows)
  obtain out row' where m: "m (h ! a) = (out, row')" by (cases "m (h ! a)")
  let ?h2 = "(h @ [h ! a])[length h := row']"
  have a: "a < length h" using Yield.prems by simp
  have len2: "length ?h2 = Suc (length h)" by simp
  have same: "?h2 ! b = h ! b" if "b < length h" for b
    using that by (simp add: nth_append)
  have copy: "(h @ [h ! a]) ! length h = h ! a" by simp
  show ?case
  proof (cases "raises out")
    case True
    then show ?thesis using m same
      by (simp add: deepcopy_def sappend_raises)
  next
    case False
    have pre: "\<forall>b\<in>set_stream rows. b < length ?h2" using Yield.prems by auto
    note ih = Yield.IH [OF pre]
    have cong: "map_stream (\<lambda>a. ?h2 ! a) rows = map_stream (\<lambda>a. h ! a) rows"
      using Yield.prems by (intro stream.map_cong refl) (auto simp: nth_append)
    obtain rest h3 where r: "Map_heap m rows ?h2 = (rest, h3)" by (cases "Map_heap m rows ?h2")
    from ih r cong len2 same have
      "rest = Map_call (\<lambda>row. fst (m row)) (map_stream (\<lambda>a. h ! a) rows)"
      "Suc (length h) \<le> length h3" "\<forall>b<length h. h3 ! b = h ! b"
      by auto
    then show ?thesis using m False r
      by (simp add: deepcopy_def)
  qed
qed


text \<open>
  C3. \<open>Map\<close> yields the concatenation of \<open>m(row)\<close> over the rows of its input, in order,
  where \<open>row\<close> is the contents the input row has before the run; and although the mapper
  writes into its argument, every row object that existed before the run has the same
  contents after it, because the mapper is given a copy. This holds for every mapper that
  writes into nothing but its argument, and also when the input holds one row object
  several times.
\<close>

theorem Map_purity:
  assumes "\<forall>a\<in>set_stream S. a < length h"
  shows "fst (Map_heap m S h) = Map_call (\<lambda>row. fst (m row)) (map_stream (\<lambda>a. h ! a) S) \<and>
         (\<forall>a<length h. snd (Map_heap m S h) ! a = h ! a) \<and>
         Map_call f (of_list rows) = sconcat (map f rows)"
  using Map_heap_frame [OF assms, of m] Map_call_of_list [of f rows] by simp

theorem Map_purity_witness:
  "Map_heap (BinaryArithmeticOperation (mul_columns ''first'' ''second'') ''result'')
     (of_list [0, 1])
     [[(''test_id'', IntV 1), (''first'', IntV 10), (''second'', IntV 5)],
      [(''test_id'', IntV 2), (''first'', IntV 0), (''second'', IntV 8)]] =
   (of_list [[(''test_id'', IntV 1), (''first'', IntV 10), (''second'', IntV 5), (''result'', IntV 50)],
             [(''test_id'', IntV 2), (''first'', IntV 0), (''second'', IntV 8), (''result'', IntV 0)]],
    [[(''test_id'', IntV 1), (''first'', IntV 10), (''second'', IntV 5)],
     [(''test_id'', IntV 2), (''first'', IntV 0), (''second'', IntV 8)],
     [(''test_id'', IntV 1), (''first'', IntV 10), (''second'', IntV 5), (''result'', IntV 50)],
     [(''test_id'', IntV 2), (''first'', IntV 0), (''second'', IntV 8), (''result'', IntV 0)]])"
proof -
  let ?h = "[[(''test_id'', IntV 1), (''first'', IntV 10), (''second'', IntV 5)],
             [(''test_id'', IntV 2), (''first'', IntV 0), (''second'', IntV 8)]]"
  let ?m = "BinaryArithmeticOperation (mul_columns ''first'' ''second'') ''result''"
  have h: "\<forall>a\<in>set_stream (of_list [0, 1 :: nat]). a < length ?h" by simp
  from Map_purity [OF h, of ?m]
  have "fst (Map_heap ?m (of_list [0, 1]) ?h) =
        Map_call (\<lambda>row. fst (?m row)) (map_stream (\<lambda>a. ?h ! a) (of_list [0, 1]))"
    by blast
  moreover have "snd (Map_heap ?m (of_list [0, 1]) ?h) =
     [[(''test_id'', IntV 1), (''first'', IntV 10), (''second'', IntV 5)],
     [(''test_id'', IntV 2), (''first'', IntV 0), (''second'', IntV 8)],
     [(''test_id'', IntV 1), (''first'', IntV 10), (''second'', IntV 5), (''result'', IntV 50)],
     [(''test_id'', IntV 2), (''first'', IntV 0), (''second'', IntV 8), (''result'', IntV 0)]]"
    by (simp add: deepcopy_def BinaryArithmeticOperation_def mul_columns_def dict_get_def
        dict_set_def)
  ultimately show ?thesis
    by (simp add: prod_eq_iff BinaryArithmeticOperation_def mul_columns_def dict_get_def
        dict_set_def)
qed

section \<open>The joiners on rows as objects\<close>

text \<open>
  The inner loop of the joiners on the store of the previous section. The left group is a
  stream of addresses and \<open>all_rows_b\<close> a list of addresses; an address may occur more than
  once, and on both sides. \<open>deepcopy(row_b)\<close> makes the new object \<open>new_row\<close>, the renaming
  writes into \<open>new_row\<close> and into the object \<open>row_a\<close>, and \<open>new_row.update(row_a)\<close> into
  \<open>new_row\<close>. The stream holds the rows as they are when yielded.
\<close>

fun cartesian_row_heap ::
  "(string list \<Rightarrow> string list) \<Rightarrow> string list \<Rightarrow> string \<Rightarrow> string \<Rightarrow> addr \<Rightarrow> addr list \<Rightarrow>
   heap \<Rightarrow> row stream \<times> heap" where
  "cartesian_row_heap order keys sa sb row_a [] h = (Stop, h)"
| "cartesian_row_heap order keys sa sb row_a (row_b # bs) h =
     (case deepcopy row_b h of
        (new_row, h1) \<Rightarrow>
          (case merge_rows order keys sa sb (h1 ! row_a) (h1 ! new_row) of
             Inl e \<Rightarrow> (Raise e, h1)
           | Inr (new_row', row_a') \<Rightarrow>
               (case cartesian_row_heap order keys sa sb row_a bs
                       (h1[row_a := row_a', new_row := new_row']) of
                  (out, h2) \<Rightarrow> (Yield new_row' out, h2))))"

fun cartesian_heap ::
  "(string list \<Rightarrow> string list) \<Rightarrow> string list \<Rightarrow> string \<Rightarrow> string \<Rightarrow> addr stream \<Rightarrow>
   addr list \<Rightarrow> heap \<Rightarrow> row stream \<times> heap" where
  "cartesian_heap order keys sa sb Stop all_rows_b h = (Stop, h)"
| "cartesian_heap order keys sa sb (Raise e) all_rows_b h = (Raise e, h)"
| "cartesian_heap order keys sa sb (Yield row_a rows_a) all_rows_b h =
     (case cartesian_row_heap order keys sa sb row_a all_rows_b h of
        (out, h1) \<Rightarrow>
          if raises out then (out, h1)
          else (case cartesian_heap order keys sa sb rows_a all_rows_b h1 of
                  (rest, h2) \<Rightarrow> (sappend out rest, h2)))"

text \<open>For one \<open>row_a\<close> that is not among the right rows the loop on the store yields what
  the loop on values yields, and leaves every other object of the store as it was.\<close>

lemma cartesian_row_heap_values:
  assumes "a \<notin> set bs" and "a < length h" and "\<forall>b\<in>set bs. b < length h"
  shows "fst (cartesian_row_heap order keys sa sb a bs h) =
           cartesian_row order keys sa sb (h ! a) (map (\<lambda>b. h ! b) bs) \<and>
         length h \<le> length (snd (cartesian_row_heap order keys sa sb a bs h)) \<and>
         (\<forall>x<length h. x \<noteq> a \<longrightarrow>
            snd (cartesian_row_heap order keys sa sb a bs h) ! x = h ! x)"
  using assms
proof (induction bs arbitrary: h)
  case Nil
  then show ?case by simp
next
  case (Cons b bs)
  let ?h1 = "h @ [h ! b]"
  have a: "a < length h" and b: "b < length h" and ab: "a \<noteq> b"
    using Cons.prems by auto
  have ra: "?h1 ! a = h ! a" using a by (simp add: nth_append)
  have rc: "?h1 ! length h = h ! b" by simp
  show ?case
  proof (cases "merge_rows order keys sa sb (h ! a) (h ! b)")
    case (Inl e)
    have "cartesian_row_heap order keys sa sb a (b # bs) h = (Raise e, ?h1)"
      using Inl a by (simp add: deepcopy_def nth_append)
    then show ?thesis
      using Inl by (simp add: nth_append)
  next
    case (Inr p)
    obtain new_row' row_a' where p: "p = (new_row', row_a')" by (cases p)
    let ?h2 = "?h1[a := row_a', length h := new_row']"
    have len: "length ?h2 = Suc (length h)" by simp
    have same: "?h2 ! x = h ! x" if "x < length h" "x \<noteq> a" for x
      using that by (simp add: nth_append)
    have at_a: "?h2 ! a = row_a'" using a by simp
    have pre: "a \<notin> set bs" "a < length ?h2" "\<forall>b\<in>set bs. b < length ?h2"
      using Cons.prems by auto
    have vals: "map (\<lambda>b. ?h2 ! b) bs = map (\<lambda>b. h ! b) bs"
    proof (rule map_cong [OF refl])
      fix x assume "x \<in> set bs"
      then have "x < length h" "x \<noteq> a" using Cons.prems by auto
      then show "?h2 ! x = h ! x" by (rule same)
    qed
    obtain out h3 where r: "cartesian_row_heap order keys sa sb a bs ?h2 = (out, h3)"
      by (cases "cartesian_row_heap order keys sa sb a bs ?h2")
    note IH = Cons.IH [OF pre, unfolded r fst_conv snd_conv at_a vals]
    have out: "out = cartesian_row order keys sa sb row_a' (map (\<lambda>b. h ! b) bs)"
      by (rule IH [THEN conjunct1])
    have l3: "length ?h2 \<le> length h3"
      by (rule IH [THEN conjunct2, THEN conjunct1])
    have f3: "\<forall>x<length ?h2. x \<noteq> a \<longrightarrow> h3 ! x = ?h2 ! x"
      by (rule IH [THEN conjunct2, THEN conjunct2])
    have res: "cartesian_row_heap order keys sa sb a (b # bs) h = (Yield new_row' out, h3)"
      using Inr p r a by (simp add: deepcopy_def nth_append)
    have frame: "h3 ! x = h ! x" if "x < length h" "x \<noteq> a" for x
    proof -
      from that have "x < length ?h2" by simp
      with f3 that have "h3 ! x = ?h2 ! x" by blast
      with same [OF that] show ?thesis by simp
    qed
    show ?thesis
      unfolding res using Inr p out l3 frame by (simp del: list_update.simps)
  qed
qed

text \<open>When the left input yields every object once and none of them is among the right
  rows, the loop on the store yields what the loop on values yields.\<close>

lemma cartesian_heap_values:
  assumes "distinct as" and "set as \<inter> set bs = {}"
    and "\<forall>a\<in>set as. a < length h" and "\<forall>b\<in>set bs. b < length h"
  shows "fst (cartesian_heap order keys sa sb (of_list as) bs h) =
         cartesian order keys sa sb (of_list (map (\<lambda>a. h ! a) as)) (map (\<lambda>b. h ! b) bs)"
  using assms
proof (induction as arbitrary: h)
  case Nil
  then show ?case by simp
next
  case (Cons a as)
  have one: "a \<notin> set bs" "a < length h" "\<forall>b\<in>set bs. b < length h"
    using Cons.prems by auto
  obtain out h1 where r: "cartesian_row_heap order keys sa sb a bs h = (out, h1)"
    by (cases "cartesian_row_heap order keys sa sb a bs h")
  note one_row =
    cartesian_row_heap_values [OF one, of order keys sa sb, unfolded r fst_conv snd_conv]
  have out: "out = cartesian_row order keys sa sb (h ! a) (map (\<lambda>b. h ! b) bs)"
    by (rule one_row [THEN conjunct1])
  have l1: "length h \<le> length h1"
    by (rule one_row [THEN conjunct2, THEN conjunct1])
  have f1: "\<forall>x<length h. x \<noteq> a \<longrightarrow> h1 ! x = h ! x"
    by (rule one_row [THEN conjunct2, THEN conjunct2])
  show ?case
  proof (cases "raises out")
    case True
    then show ?thesis using r out by (simp add: sappend_raises)
  next
    case False
    have pre: "distinct as" "set as \<inter> set bs = {}" "\<forall>a\<in>set as. a < length h1"
      "\<forall>b\<in>set bs. b < length h1"
      using Cons.prems l1 by auto
    have va: "map (\<lambda>a. h1 ! a) as = map (\<lambda>a. h ! a) as"
    proof (rule map_cong [OF refl])
      fix x assume "x \<in> set as"
      then have "x < length h" "x \<noteq> a" using Cons.prems by auto
      with f1 show "h1 ! x = h ! x" by blast
    qed
    have vb: "map (\<lambda>b. h1 ! b) bs = map (\<lambda>b. h ! b) bs"
    proof (rule map_cong [OF refl])
      fix x assume "x \<in> set bs"
      then have "x < length h" "x \<noteq> a" using Cons.prems by auto
      with f1 show "h1 ! x = h ! x" by blast
    qed
    obtain rest h2 where q: "cartesian_heap order keys sa sb (of_list as) bs h1 = (rest, h2)"
      by (cases "cartesian_heap order keys sa sb (of_list as) bs h1")
    have rest: "rest = cartesian order keys sa sb (of_list (map (\<lambda>a. h ! a) as))
                         (map (\<lambda>b. h ! b) bs)"
      by (rule Cons.IH [OF pre, unfolded q fst_conv va vb])
    show ?thesis using r q False out rest by simp
  qed
qed

text \<open>
  One object yielded twice by the left input, \<open>{id: 1, v: 'a'}\<close> at address 0, and the
  right row \<open>{id: 1, v: 'x'}\<close> at address 1: the first pass renames the object, so the
  second time there is no colliding column, and the right value stays under \<open>v\<close>. On
  values, two equal left rows are both renamed.
\<close>

lemma cartesian_heap_shared_row:
  "fst (cartesian_heap id [''id''] ''_1'' ''_2'' (of_list [0, 0]) [1]
          [[(''id'', IntV 1), (''v'', StrV ''a'')], [(''id'', IntV 1), (''v'', StrV ''x'')]]) =
     of_list [[(''id'', IntV 1), (''v_2'', StrV ''x''), (''v_1'', StrV ''a'')],
              [(''id'', IntV 1), (''v'', StrV ''x''), (''v_1'', StrV ''a'')]] \<and>
   cartesian id [''id''] ''_1'' ''_2''
     (of_list [[(''id'', IntV 1), (''v'', StrV ''a'')], [(''id'', IntV 1), (''v'', StrV ''a'')]])
     [[(''id'', IntV 1), (''v'', StrV ''x'')]] =
     of_list [[(''id'', IntV 1), (''v_2'', StrV ''x''), (''v_1'', StrV ''a'')],
              [(''id'', IntV 1), (''v_2'', StrV ''x''), (''v_1'', StrV ''a'')]]"
  by (simp add: deepcopy_def merge_rows_def same_cols_def dict_keys_def dict_pop_def
      dict_set_def dict_update_def dict_get_def)

section \<open>TopN\<close>

text \<open>
  The order of values: integers by value, strings by the codes of their characters. The
  instance makes the order total by placing every integer below every string. Python has
  no order between an integer and a string: what is translated from the code compares with
  \<open>py_lt\<close>, which raises there, and uses the instance only between values of one type.
\<close>

instantiation val :: linorder
begin

fun less_eq_val :: "val \<Rightarrow> val \<Rightarrow> bool" where
  "less_eq_val (IntV a) (IntV b) = (a \<le> b)"
| "less_eq_val (StrV a) (StrV b) = (a \<le> b)"
| "less_eq_val (IntV a) (StrV b) = True"
| "less_eq_val (StrV a) (IntV b) = False"

definition less_val :: "val \<Rightarrow> val \<Rightarrow> bool" where
  "less_val x y = (x \<le> y \<and> \<not> y \<le> x)"

instance
proof
  fix x y z :: val
  show "(x < y) = (x \<le> y \<and> \<not> y \<le> x)" by (simp add: less_val_def)
  show "x \<le> x" by (cases x) auto
  show "x \<le> y \<Longrightarrow> y \<le> z \<Longrightarrow> x \<le> z" by (cases x; cases y; cases z) auto
  show "x \<le> y \<Longrightarrow> y \<le> x \<Longrightarrow> x = y" by (cases x; cases y) auto
  show "x \<le> y \<or> y \<le> x" by (cases x; cases y) auto
qed

end


text \<open>
  \<open>TopN.__call__\<close>:
  \<^verbatim>\<open>for row in heapq.nlargest(self.n, rows, key=lambda r: r[self.column_max]):
      yield row\<close>
  \<open>heapq.nlargest\<close> is Python's library. Its result is modelled by the equivalent its
  documentation gives, \<^verbatim>\<open>sorted(iterable, key=key, reverse=True)[:n]\<close>: the rows sorted by
  descending key, rows with equal keys staying in the order they were read (the sort is
  written as an insertion sort from the end of the list), and of these the first \<open>n\<close>. Its
  exceptions follow the order in which the library reads and compares. For \<open>n \<le> 0\<close> it
  returns the empty list and reads nothing. Otherwise it reads the first \<open>n\<close> rows,
  computing the key of each as it is read (\<open>KeyError\<close> for a row without the column), and
  makes a heap of them, which raises \<open>TypeError\<close> when there are an integer and a string
  among their keys. Every further row is read, its key computed, and the key compared with
  the least key of the heap (\<^verbatim>\<open>if top < k\<close>), which raises \<open>TypeError\<close> when it is of the
  other type; the first key read stands for \<open>top\<close> here (\<open>least\<close> below), all keys of the heap being of its
  type. For \<open>n = 1\<close> the library calls \<open>max\<close>, which reads, computes and compares in the
  same order.
\<close>

text \<open>The first \<open>n\<close> rows with their keys, and the stream after them.\<close>

fun take_keyed ::
  "nat \<Rightarrow> string \<Rightarrow> row stream \<Rightarrow> error + ((val \<times> row) list \<times> row stream)" where
  "take_keyed 0 col rows = Inr ([], rows)"
| "take_keyed (Suc n) col Stop = Inr ([], Stop)"
| "take_keyed (Suc n) col (Raise e) = Inl e"
| "take_keyed (Suc n) col (Yield r rows) =
     (case dict_get r col of
        Inl e \<Rightarrow> Inl e
      | Inr v \<Rightarrow>
          (case take_keyed n col rows of
             Inl e \<Rightarrow> Inl e
           | Inr (ks, rest) \<Rightarrow> Inr ((v, r) # ks, rest)))"

text \<open>The further rows with their keys, each key compared with \<open>least\<close> as it is read.\<close>

fun rest_keyed :: "val \<Rightarrow> string \<Rightarrow> row stream \<Rightarrow> error + (val \<times> row) list" where
  "rest_keyed least col Stop = Inr []"
| "rest_keyed least col (Raise e) = Inl e"
| "rest_keyed least col (Yield r rows) =
     (case dict_get r col of
        Inl e \<Rightarrow> Inl e
      | Inr v \<Rightarrow>
          (case py_lt least v of
             Inl e \<Rightarrow> Inl e
           | Inr lt \<Rightarrow>
               (case rest_keyed least col rows of
                  Inl e \<Rightarrow> Inl e
                | Inr ks \<Rightarrow> Inr ((v, r) # ks))))"

fun insert_desc :: "val \<times> row \<Rightarrow> (val \<times> row) list \<Rightarrow> error + (val \<times> row) list" where
  "insert_desc x [] = Inr [x]"
| "insert_desc x (y # ys) =
     (case py_lt (fst x) (fst y) of
        Inl e \<Rightarrow> Inl e
      | Inr lt \<Rightarrow>
          if lt then (case insert_desc x ys of Inl e \<Rightarrow> Inl e | Inr zs \<Rightarrow> Inr (y # zs))
          else Inr (x # y # ys))"

fun sorted_reverse :: "(val \<times> row) list \<Rightarrow> error + (val \<times> row) list" where
  "sorted_reverse [] = Inr []"
| "sorted_reverse (x # xs) =
     (case sorted_reverse xs of Inl e \<Rightarrow> Inl e | Inr ys \<Rightarrow> insert_desc x ys)"

text \<open>\<open>sorted_reverse first\<close> stands for the heap made of the first rows: it raises when
  their keys are of both types, as the heap does.\<close>

definition nlargest :: "int \<Rightarrow> string \<Rightarrow> row stream \<Rightarrow> error + row list" where
  "nlargest n col rows =
     (if n \<le> 0 then Inr []
      else
        (case take_keyed (nat n) col rows of
           Inl e \<Rightarrow> Inl e
         | Inr (first, rest) \<Rightarrow>
             (case first of
                [] \<Rightarrow> Inr []
              | (least, row) # _ \<Rightarrow>
                  (case sorted_reverse first of
                     Inl e \<Rightarrow> Inl e
                   | Inr heap \<Rightarrow>
                       (case rest_keyed least col rest of
                          Inl e \<Rightarrow> Inl e
                        | Inr others \<Rightarrow>
                            (case sorted_reverse (first @ others) of
                               Inl e \<Rightarrow> Inl e
                             | Inr ss \<Rightarrow> Inr (take (nat n) (map snd ss))))))))"

definition TopN :: "string \<Rightarrow> int \<Rightarrow> reducer" where
  "TopN column_max n group_key rows =
     (case nlargest n column_max rows of Inl e \<Rightarrow> Raise e | Inr out \<Rightarrow> of_list out)"


subsection \<open>The sort on keys of one type\<close>

fun ins :: "val \<times> 'a \<Rightarrow> (val \<times> 'a) list \<Rightarrow> (val \<times> 'a) list" where
  "ins x [] = [x]"
| "ins x (y # ys) = (if fst x < fst y then y # ins x ys else x # y # ys)"

definition same_kind :: "val \<Rightarrow> val \<Rightarrow> bool" where
  "same_kind a b = (case (a, b) of (IntV _, IntV _) \<Rightarrow> True | (StrV _, StrV _) \<Rightarrow> True | _ \<Rightarrow> False)"

lemma py_lt_same_kind: "same_kind a b \<Longrightarrow> py_lt a b = Inr (a < b)"
  by (cases a; cases b) (auto simp: same_kind_def less_val_def)

lemma mset_ins: "mset (ins x ys) = add_mset x (mset ys)"
  by (induction ys) auto

lemma set_ins: "set (ins x ys) = insert x (set ys)"
  by (induction ys) auto

lemma insert_desc_ins:
  assumes "\<forall>y\<in>set ys. same_kind (fst x) (fst y)"
  shows "insert_desc x ys = Inr (ins x ys)"
  using assms by (induction ys) (auto simp: py_lt_same_kind)

lemma sorted_reverse_foldr:
  assumes "\<forall>x\<in>set xs. \<forall>y\<in>set xs. same_kind (fst x) (fst y)"
  shows "sorted_reverse xs = Inr (foldr ins xs [])"
  using assms
proof (induction xs)
  case Nil
  then show ?case by simp
next
  case (Cons x xs)
  have "set (foldr ins xs []) = set xs"
    by (induction xs) (auto simp: set_ins)
  with Cons show ?case by (simp add: insert_desc_ins)
qed

lemma sorted_ins:
  "sorted_wrt (\<lambda>a b. fst b \<le> fst a) ys \<Longrightarrow> sorted_wrt (\<lambda>a b. fst b \<le> fst a) (ins x ys)"
  by (induction ys) (auto simp: set_ins)

lemma sorted_foldr_ins: "sorted_wrt (\<lambda>a b. fst b \<le> fst a) (foldr ins xs [])"
  by (induction xs) (auto intro: sorted_ins)

lemma filter_ins:
  assumes "sorted_wrt (\<lambda>a b. fst b \<le> fst a) ys"
  shows "filter (\<lambda>p. fst p = v) (ins x ys) =
         (if fst x = v then x # filter (\<lambda>p. fst p = v) ys else filter (\<lambda>p. fst p = v) ys)"
  using assms by (induction ys) auto

lemma filter_foldr_ins:
  "filter (\<lambda>p. fst p = v) (foldr ins xs []) = filter (\<lambda>p. fst p = v) xs"
  by (induction xs) (auto simp: filter_ins sorted_foldr_ins)

lemma mset_foldr_ins: "mset (foldr ins xs []) = mset xs"
  by (induction xs) (auto simp: mset_ins)

text \<open>\<open>col_ge col a b\<close>: both rows have the column and \<open>a\<close>'s value is at least \<open>b\<close>'s.\<close>

definition col_ge :: "string \<Rightarrow> row \<Rightarrow> row \<Rightarrow> bool" where
  "col_ge col a b =
     (case (dict_get a col, dict_get b col) of (Inr x, Inr y) \<Rightarrow> y \<le> x | _ \<Rightarrow> False)"

lemma take_keyed_Stop [simp]: "take_keyed m col Stop = Inr ([], Stop)"
  by (cases m) simp_all

lemma take_keyed_of_list:
  assumes "\<forall>r\<in>set rows. dict_get r col = Inr (f r)"
  shows "take_keyed m col (of_list rows) =
         Inr (map (\<lambda>r. (f r, r)) (take m rows), of_list (drop m rows))"
  using assms
proof (induction m arbitrary: rows)
  case 0
  then show ?case by simp
next
  case (Suc m)
  then show ?case by (cases rows) auto
qed

lemma rest_keyed_of_list:
  assumes "\<forall>r\<in>set rows. dict_get r col = Inr (f r) \<and> same_kind least (f r)"
  shows "rest_keyed least col (of_list rows) = Inr (map (\<lambda>r. (f r, r)) rows)"
  using assms by (induction rows) (auto simp: py_lt_same_kind)

lemma set_foldr_ins: "set (foldr ins xs []) = set xs"
  by (induction xs) (auto simp: set_ins)

lemma nlargest_ok:
  assumes g: "\<forall>r\<in>set rows. dict_get r col = Inr (f r)"
    and k: "\<forall>a\<in>set rows. \<forall>b\<in>set rows. same_kind (f a) (f b)"
  shows "\<exists>srt. nlargest n col (of_list rows) = Inr (take (nat n) srt) \<and>
           mset srt = mset rows \<and>
           sorted_wrt (\<lambda>a b. f b \<le> f a) srt \<and>
           (\<forall>v. filter (\<lambda>r. f r = v) srt = filter (\<lambda>r. f r = v) rows)"
proof -
  let ?ks = "map (\<lambda>r. (f r, r)) rows"
  let ?ss = "foldr ins ?ks []"
  let ?srt = "map snd ?ss"
  have kind: "\<forall>x\<in>set ?ks. \<forall>y\<in>set ?ks. same_kind (fst x) (fst y)"
    using k by auto
  have sr: "sorted_reverse ?ks = Inr ?ss" by (rule sorted_reverse_foldr [OF kind])
  have n: "nlargest n col (of_list rows) = Inr (take (nat n) ?srt)"
  proof (cases rows)
    case Nil
    then show ?thesis by (simp add: nlargest_def)
  next
    case (Cons x xs)
    define first where "first = map (\<lambda>r. (f r, r)) (take (nat n) rows)"
    define others where "others = map (\<lambda>r. (f r, r)) (drop (nat n) rows)"
    show ?thesis
    proof (cases "n \<le> 0")
      case True
      then show ?thesis by (simp add: nlargest_def)
    next
      case False
      then obtain m' where m': "nat n = Suc m'" by (cases "nat n") auto
      obtain fs where hd: "first = (f x, x) # fs"
        using Cons m' by (simp add: first_def)
      have tk: "take_keyed (nat n) col (of_list rows) =
                Inr (first, of_list (drop (nat n) rows))"
        by (simp add: first_def take_keyed_of_list [OF g])
      have kf: "\<forall>a\<in>set first. \<forall>b\<in>set first. same_kind (fst a) (fst b)"
        using k by (auto simp: first_def dest!: in_set_takeD)
      have srf: "sorted_reverse first = Inr (foldr ins first [])"
        by (rule sorted_reverse_foldr [OF kf])
      have rk: "rest_keyed (f x) col (of_list (drop (nat n) rows)) = Inr others"
        unfolding others_def
        by (rule rest_keyed_of_list) (use g k Cons in \<open>auto dest!: in_set_dropD\<close>)
      have app: "first @ others = map (\<lambda>r. (f r, r)) rows"
        by (simp add: first_def others_def flip: map_append)
      have sra: "sorted_reverse (first @ others) = Inr ?ss"
        unfolding app by (rule sr)
      have "nlargest n col (of_list rows) =
            (case first of
               [] \<Rightarrow> Inr []
             | (least, row) # _ \<Rightarrow>
                 (case sorted_reverse first of
                    Inl e \<Rightarrow> Inl e
                  | Inr heap \<Rightarrow>
                      (case rest_keyed least col (of_list (drop (nat n) rows)) of
                         Inl e \<Rightarrow> Inl e
                       | Inr others \<Rightarrow>
                           (case sorted_reverse (first @ others) of
                              Inl e \<Rightarrow> Inl e
                            | Inr ss \<Rightarrow> Inr (take (nat n) (map snd ss))))))"
        using False by (simp add: nlargest_def tk)
      also have "\<dots> = (case sorted_reverse first of
                    Inl e \<Rightarrow> Inl e
                  | Inr heap \<Rightarrow>
                      (case rest_keyed (f x) col (of_list (drop (nat n) rows)) of
                         Inl e \<Rightarrow> Inl e
                       | Inr others \<Rightarrow>
                           (case sorted_reverse (first @ others) of
                              Inl e \<Rightarrow> Inl e
                            | Inr ss \<Rightarrow> Inr (take (nat n) (map snd ss)))))"
        by (subst (1) hd) (simp only: list.case prod.case)
      also have "\<dots> = Inr (take (nat n) (map snd ?ss))"
        by (simp only: srf rk sra sum.case)
      finally show ?thesis .
    qed
  qed
  have pairs: "\<forall>p\<in>set ?ss. fst p = f (snd p)"
    by (auto simp: set_foldr_ins)
  have m: "mset ?srt = mset rows"
  proof -
    have "mset ?srt = image_mset snd (mset ?ss)" by simp
    also have "\<dots> = image_mset snd (mset ?ks)" by (simp only: mset_foldr_ins)
    also have "\<dots> = mset rows" by (simp add: multiset.map_comp comp_def)
    finally show ?thesis .
  qed
  have s: "sorted_wrt (\<lambda>a b. f b \<le> f a) ?srt"
  proof -
    have "sorted_wrt (\<lambda>a b. fst b \<le> fst a) ?ss" by (rule sorted_foldr_ins)
    then have "sorted_wrt (\<lambda>a b. f (snd b) \<le> f (snd a)) ?ss"
    proof (rule sorted_wrt_mono_rel [rotated])
      fix x y assume "x \<in> set ?ss" "y \<in> set ?ss" "fst y \<le> fst x"
      then show "f (snd y) \<le> f (snd x)" using pairs by auto
    qed
    then show ?thesis by (simp add: sorted_wrt_map)
  qed
  have st: "filter (\<lambda>r. f r = v) ?srt = filter (\<lambda>r. f r = v) rows" for v
  proof -
    have "filter (\<lambda>r. f r = v) ?srt = map snd (filter (\<lambda>p. f (snd p) = v) ?ss)"
      by (simp add: filter_map comp_def)
    also have "filter (\<lambda>p. f (snd p) = v) ?ss = filter (\<lambda>p. fst p = v) ?ss"
      by (rule filter_cong) (use pairs in auto)
    also have "\<dots> = filter (\<lambda>p. fst p = v) ?ks" by (rule filter_foldr_ins)
    also have "map snd \<dots> = filter (\<lambda>r. f r = v) rows"
      by (simp add: filter_map comp_def)
    finally show ?thesis .
  qed
  from n m s st show ?thesis by blast
qed

lemma TopN_spec:
  assumes g: "\<forall>r\<in>set rows. dict_get r col = Inr (f r)"
    and k: "\<forall>a\<in>set rows. \<forall>b\<in>set rows. same_kind (f a) (f b)"
  shows "\<exists>out rest. TopN col n K (of_list rows) = of_list out \<and>
           length out = min (nat n) (length rows) \<and>
           sorted_wrt (col_ge col) out \<and>
           mset rows = mset out + mset rest \<and>
           (\<forall>x\<in>set out. \<forall>y\<in>set rest. col_ge col x y) \<and>
           (\<forall>v. prefix (filter (\<lambda>r. dict_get r col = Inr v) out)
                  (filter (\<lambda>r. dict_get r col = Inr v) rows))"
proof -
  from nlargest_ok [OF g k, of n] obtain srt where
    n: "nlargest n col (of_list rows) = Inr (take (nat n) srt)" and
    m: "mset srt = mset rows" and
    s: "sorted_wrt (\<lambda>a b. f b \<le> f a) srt" and
    st: "\<And>v. filter (\<lambda>r. f r = v) srt = filter (\<lambda>r. f r = v) rows"
    by blast
  let ?out = "take (nat n) srt" and ?rest = "drop (nat n) srt"
  have sets: "set srt = set rows" using m by (rule mset_eq_setD)
  have ge: "col_ge col a b \<longleftrightarrow> f b \<le> f a" if "a \<in> set srt" "b \<in> set srt" for a b
    using that g sets by (simp add: col_ge_def)
  have get: "dict_get r col = Inr v \<longleftrightarrow> f r = v" if "r \<in> set srt" for r v
    using that g sets by auto
  have 1: "TopN col n K (of_list rows) = of_list ?out" by (simp add: TopN_def n)
  have 2: "length ?out = min (nat n) (length rows)"
    using mset_eq_length [OF m] by simp
  have split: "sorted_wrt (\<lambda>a b. f b \<le> f a) (?out @ ?rest)" using s by simp
  have 3: "sorted_wrt (col_ge col) ?out"
  proof -
    from split have o: "sorted_wrt (\<lambda>a b. f b \<le> f a) ?out" by (simp only: sorted_wrt_append)
    show ?thesis
    proof (rule sorted_wrt_mono_rel [OF _ o])
      fix x y assume "x \<in> set ?out" "y \<in> set ?out" "f y \<le> f x"
      then show "col_ge col x y" using ge by (auto dest: in_set_takeD)
    qed
  qed
  have 4: "mset rows = mset ?out + mset ?rest"
    using m by (metis append_take_drop_id mset_append)
  have 5: "\<forall>x\<in>set ?out. \<forall>y\<in>set ?rest. col_ge col x y"
  proof (intro ballI)
    fix x y assume x: "x \<in> set ?out" and y: "y \<in> set ?rest"
    from split have "\<forall>a\<in>set ?out. \<forall>b\<in>set ?rest. f b \<le> f a"
      unfolding sorted_wrt_append by blast
    with x y have "f y \<le> f x" by blast
    then show "col_ge col x y" using ge x y by (auto dest: in_set_takeD in_set_dropD)
  qed
  have 6: "prefix (filter (\<lambda>r. dict_get r col = Inr v) ?out)
                  (filter (\<lambda>r. dict_get r col = Inr v) rows)" for v
  proof -
    have a: "filter (\<lambda>r. dict_get r col = Inr v) ?out = filter (\<lambda>r. f r = v) ?out"
      by (rule filter_cong) (use get in \<open>auto dest: in_set_takeD\<close>)
    have b: "filter (\<lambda>r. dict_get r col = Inr v) rows = filter (\<lambda>r. f r = v) rows"
      by (rule filter_cong) (use get sets in auto)
    have "prefix (filter (\<lambda>r. f r = v) ?out) (filter (\<lambda>r. f r = v) srt)"
      by (rule filter_mono_prefix) (rule take_is_prefix)
    then show ?thesis unfolding a b st .
  qed
  from 1 2 3 4 5 6 show ?thesis by blast
qed


text \<open>
  C6. On a group whose rows all carry the column \<open>col\<close> with values of one type,
  \<open>TopN(col, n)\<close> emits \<open>min n (size of the group)\<close> rows (none for \<open>n \<le> 0\<close>), in descending
  order of \<open>col\<close>; they are rows of the group, and every row of the group left out has a
  value of \<open>col\<close> no larger than any emitted one; and for every value, the emitted rows with
  that value are the first ones of the group with it, in input order.
\<close>

theorem TopN_largest:
  assumes "(\<forall>r\<in>set rows. \<exists>i. dict_get r col = Inr (IntV i)) \<or>
           (\<forall>r\<in>set rows. \<exists>s. dict_get r col = Inr (StrV s))"
  shows "\<exists>out rest. TopN col n K (of_list rows) = of_list out \<and>
           length out = min (nat n) (length rows) \<and>
           sorted_wrt (col_ge col) out \<and>
           mset rows = mset out + mset rest \<and>
           (\<forall>x\<in>set out. \<forall>y\<in>set rest. col_ge col x y) \<and>
           (\<forall>v. prefix (filter (\<lambda>r. dict_get r col = Inr v) out)
                  (filter (\<lambda>r. dict_get r col = Inr v) rows))"
proof -
  define f where "f r = projr (dict_get r col)" for r
  have g: "\<forall>r\<in>set rows. dict_get r col = Inr (f r)"
    using assms by (auto simp: f_def)
  have k: "\<forall>a\<in>set rows. \<forall>b\<in>set rows. same_kind (f a) (f b)"
    using assms
  proof
    assume i: "\<forall>r\<in>set rows. \<exists>i. dict_get r col = Inr (IntV i)"
    show ?thesis
    proof (intro ballI)
      fix a b assume "a \<in> set rows" "b \<in> set rows"
      with i obtain x y where "dict_get a col = Inr (IntV x)" "dict_get b col = Inr (IntV y)"
        by blast
      then show "same_kind (f a) (f b)" by (simp add: f_def same_kind_def)
    qed
  next
    assume s: "\<forall>r\<in>set rows. \<exists>s. dict_get r col = Inr (StrV s)"
    show ?thesis
    proof (intro ballI)
      fix a b assume "a \<in> set rows" "b \<in> set rows"
      with s obtain x y where "dict_get a col = Inr (StrV x)" "dict_get b col = Inr (StrV y)"
        by blast
      then show "same_kind (f a) (f b)" by (simp add: f_def same_kind_def)
    qed
  qed
  show ?thesis by (rule TopN_spec [OF g k])
qed

theorem TopN_largest_witness:
  "TopN ''s'' 2 [''k'']
     (of_list [[(''k'', IntV 1), (''s'', IntV 5), (''i'', IntV 0)],
               [(''k'', IntV 1), (''s'', IntV 3), (''i'', IntV 1)],
               [(''k'', IntV 1), (''s'', IntV 5), (''i'', IntV 2)],
               [(''k'', IntV 1), (''s'', IntV 7), (''i'', IntV 3)]]) =
   of_list [[(''k'', IntV 1), (''s'', IntV 7), (''i'', IntV 3)],
            [(''k'', IntV 1), (''s'', IntV 5), (''i'', IntV 0)]] \<and>
   TopN ''s'' 2 [''k'']
     (of_list [[(''k'', IntV 1), (''s'', IntV 5)],
               [(''k'', IntV 1), (''s'', IntV 5)],
               [(''k'', IntV 1), (''s'', IntV 3)]]) =
   of_list [[(''k'', IntV 1), (''s'', IntV 5)], [(''k'', IntV 1), (''s'', IntV 5)]] \<and>
   prefix
     (filter (\<lambda>r. dict_get r ''s'' = Inr (IntV 5))
        [[(''k'', IntV 1), (''s'', IntV 7), (''i'', IntV 3)],
         [(''k'', IntV 1), (''s'', IntV 5), (''i'', IntV 0)]])
     (filter (\<lambda>r. dict_get r ''s'' = Inr (IntV 5))
        [[(''k'', IntV 1), (''s'', IntV 5), (''i'', IntV 0)],
         [(''k'', IntV 1), (''s'', IntV 3), (''i'', IntV 1)],
         [(''k'', IntV 1), (''s'', IntV 5), (''i'', IntV 2)],
         [(''k'', IntV 1), (''s'', IntV 7), (''i'', IntV 3)]])"
proof -
  let ?rows = "[[(''k'', IntV 1), (''s'', IntV 5), (''i'', IntV 0)],
               [(''k'', IntV 1), (''s'', IntV 3), (''i'', IntV 1)],
               [(''k'', IntV 1), (''s'', IntV 5), (''i'', IntV 2)],
               [(''k'', IntV 1), (''s'', IntV 7), (''i'', IntV 3)]]"
  let ?out = "[[(''k'', IntV 1), (''s'', IntV 7), (''i'', IntV 3)],
               [(''k'', IntV 1), (''s'', IntV 5), (''i'', IntV 0)]]"
  have h: "(\<forall>r\<in>set ?rows. \<exists>i. dict_get r ''s'' = Inr (IntV i)) \<or>
           (\<forall>r\<in>set ?rows. \<exists>s. dict_get r ''s'' = Inr (StrV s))"
    by (simp add: dict_get_def)
  have e: "TopN ''s'' 2 [''k''] (of_list ?rows) = of_list ?out"
    by (simp add: TopN_def nlargest_def dict_get_def less_val_def numeral_2_eq_2)
  have e2: "TopN ''s'' 2 [''k'']
     (of_list [[(''k'', IntV 1), (''s'', IntV 5)],
               [(''k'', IntV 1), (''s'', IntV 5)],
               [(''k'', IntV 1), (''s'', IntV 3)]]) =
     of_list [[(''k'', IntV 1), (''s'', IntV 5)], [(''k'', IntV 1), (''s'', IntV 5)]]"
    by (simp add: TopN_def nlargest_def dict_get_def less_val_def numeral_2_eq_2)
  from TopN_largest [OF h, of 2 "[''k'']"] obtain out where
    o: "TopN ''s'' 2 [''k''] (of_list ?rows) = of_list out" and
    p: "\<forall>v. prefix (filter (\<lambda>r. dict_get r ''s'' = Inr v) out)
              (filter (\<lambda>r. dict_get r ''s'' = Inr v) ?rows)"
    by blast
  from o e have "of_list out = of_list ?out" by (simp only:)
  then have "out = ?out" by (simp only: of_list_inject)
  with p have "prefix (filter (\<lambda>r. dict_get r ''s'' = Inr (IntV 5)) ?out)
     (filter (\<lambda>r. dict_get r ''s'' = Inr (IntV 5)) ?rows)"
    by blast
  with e e2 show ?thesis by blast
qed

section \<open>The external sort\<close>

text \<open>
  Modelled from the spec: the sort key of a row. \<open>ExternalSort\<close> (\<open>external_sort.py\<close>) is
  not among the sources; \<open>Graph.sort\<close> only constructs it. The specification: a row's key
  value under \<open>K\<close> is the tuple of its values at \<open>K\<close>'s columns in order, compared
  lexicographically, element by element, in the natural order of each value type, a
  missing column being a distinct absent value (\<open>None\<close>, below every value).
\<close>

definition k_value :: "string list \<Rightarrow> row \<Rightarrow> val option list" where
  "k_value K r = map (map_of r) K"


text \<open>
  Modelled from the spec: steps 1 and 2 of the external sort. Rows are pulled into a
  buffer; when the buffer exceeds the memory bound (counted in rows) it is sorted stably
  by key value and spilled as a run, and the buffer is cleared; when the input is
  exhausted the last buffer is sorted and is the last run.
\<close>

fun spill :: "nat \<Rightarrow> string list \<Rightarrow> row list \<Rightarrow> row list \<Rightarrow> row list list" where
  "spill bound K buf [] = [sort_key (k_value K) buf]"
| "spill bound K buf (x # xs) =
     (if length (buf @ [x]) > bound
      then sort_key (k_value K) (buf @ [x]) # spill bound K [] xs
      else spill bound K (buf @ [x]) xs)"


text \<open>
  Modelled from the spec: the min-heap of step 3, keyed by key value with the run's number
  as tie-breaker. \<open>pop_least\<close> takes the head with the least key value among the heads of
  the runs, the head of the earliest run among equal ones, and returns it with the runs
  that remain.
\<close>

fun pop_least :: "string list \<Rightarrow> row list list \<Rightarrow> (row \<times> row list list) option" where
  "pop_least K [] = None"
| "pop_least K ([] # rs) =
     (case pop_least K rs of None \<Rightarrow> None | Some (y, rs') \<Rightarrow> Some (y, [] # rs'))"
| "pop_least K ((x # r) # rs) =
     (case pop_least K rs of
        None \<Rightarrow> Some (x, r # rs)
      | Some (y, rs') \<Rightarrow>
          if k_value K x \<le> k_value K y then Some (x, r # rs) else Some (y, (x # r) # rs'))"

lemma pop_least_mset:
  "pop_least K rss = Some (x, rss') \<Longrightarrow> mset (concat rss) = add_mset x (mset (concat rss'))"
  by (induction K rss arbitrary: x rss' rule: pop_least.induct)
     (auto split: option.splits if_splits)

lemma pop_least_length:
  "pop_least K rss = Some (x, rss') \<Longrightarrow> length (concat rss') < length (concat rss)"
  using pop_least_mset [of K rss x rss'] mset_eq_length [of "concat rss" "x # concat rss'"]
  by simp

text \<open>Modelled from the spec: the k-way merge of step 3, which yields the least head
  until every run is exhausted.\<close>

function kway_merge :: "string list \<Rightarrow> row list list \<Rightarrow> row list" where
  "kway_merge K rss =
     (case pop_least K rss of None \<Rightarrow> [] | Some (x, rss') \<Rightarrow> x # kway_merge K rss')"
  by pat_completeness auto
termination
  by (relation "measure (\<lambda>(K, rss). length (concat rss))") (auto dest: pop_least_length)

declare kway_merge.simps [simp del]


text \<open>Modelled from the spec: the sort of a list of rows under a memory bound, runs then
  merge.\<close>

definition external_sort :: "nat \<Rightarrow> string list \<Rightarrow> row list \<Rightarrow> row list" where
  "external_sort bound K xs = kway_merge K (spill bound K [] xs)"


text \<open>Modelled from the spec: the sort as an operation on a stream. The input is read to
  its end before the first row is yielded, so an exception of the input is all the sort
  gives.\<close>

definition ExternalSort_call :: "nat \<Rightarrow> string list \<Rightarrow> row stream \<Rightarrow> row stream" where
  "ExternalSort_call bound K rows =
     (case drain rows of Inl e \<Rightarrow> Raise e | Inr xs \<Rightarrow> of_list (external_sort bound K xs))"


subsection \<open>The merge of sorted runs\<close>

lemma pop_least_None: "pop_least K rss = None \<longleftrightarrow> concat rss = []"
  by (induction K rss rule: pop_least.induct) (auto split: option.splits)

lemma pop_least_sorted:
  assumes "pop_least K rss = Some (x, rss')"
    and "\<forall>r\<in>set rss. sorted (map (k_value K) r)"
  shows "\<forall>r\<in>set rss'. sorted (map (k_value K) r)"
  using assms
  by (induction K rss arbitrary: x rss' rule: pop_least.induct)
     (auto split: option.splits if_splits)

lemma pop_least_min:
  assumes "pop_least K rss = Some (x, rss')"
    and "\<forall>r\<in>set rss. sorted (map (k_value K) r)"
  shows "\<forall>y\<in>set (concat rss). k_value K x \<le> k_value K y"
  using assms
proof (induction K rss arbitrary: x rss' rule: pop_least.induct)
  case (1 K)
  then show ?case by simp
next
  case (2 K rs)
  then show ?case by (auto split: option.splits)
next
  case (3 K x0 r rs)
  show ?case
  proof (cases "pop_least K rs")
    case None
    then have "concat rs = []" by (simp add: pop_least_None)
    with 3 None show ?thesis by auto
  next
    case (Some p)
    obtain y rs' where p: "p = (y, rs')" by (cases p)
    have srt: "\<forall>r\<in>set rs. sorted (map (k_value K) r)" using 3 by simp
    from "3.IH" [OF Some [unfolded p] srt]
    have ih: "\<forall>z\<in>set (concat rs). k_value K y \<le> k_value K z" .
    have r: "\<forall>z\<in>set r. k_value K x0 \<le> k_value K z" using "3.prems"(2) by auto
    show ?thesis
    proof (cases "k_value K x0 \<le> k_value K y")
      case True
      with "3.prems"(1) Some p have "x = x0" by simp
      with True ih r show ?thesis by (auto intro: order_trans)
    next
      case False
      with "3.prems"(1) Some p have "x = y" by simp
      moreover from False have "k_value K y \<le> k_value K x0" by simp
      ultimately show ?thesis using ih r by (auto intro: order_trans)
    qed
  qed
qed

lemma pop_least_filter:
  assumes "pop_least K rss = Some (x, rss')"
    and "\<forall>r\<in>set rss. sorted (map (k_value K) r)"
  shows "filter (\<lambda>r. k_value K r = k) (concat rss) =
         (if k_value K x = k then x # filter (\<lambda>r. k_value K r = k) (concat rss')
          else filter (\<lambda>r. k_value K r = k) (concat rss'))"
  using assms
proof (induction K rss arbitrary: x rss' rule: pop_least.induct)
  case (1 K)
  then show ?case by simp
next
  case (2 K rs)
  then show ?case by (auto split: option.splits)
next
  case (3 K x0 r rs)
  show ?case
  proof (cases "pop_least K rs")
    case None
    with 3 show ?thesis by auto
  next
    case (Some p)
    obtain y rs' where p: "p = (y, rs')" by (cases p)
    have srt: "\<forall>r\<in>set rs. sorted (map (k_value K) r)" using 3 by simp
    note ih = "3.IH" [OF Some [unfolded p] srt]
    have r: "\<forall>z\<in>set r. k_value K x0 \<le> k_value K z" using "3.prems"(2) by auto
    show ?thesis
    proof (cases "k_value K x0 \<le> k_value K y")
      case True
      with "3.prems"(1) Some p show ?thesis by auto
    next
      case False
      with "3.prems"(1) Some p have x: "x = y" and rss': "rss' = (x0 # r) # rs'" by simp_all
      from False have lt: "k_value K y < k_value K x0" by simp
      have none: "filter (\<lambda>r. k_value K r = k) (x0 # r) = []" if "k_value K y = k"
        using that lt r by (auto simp: filter_empty_conv)
      show ?thesis unfolding x rss' using ih none by auto
    qed
  qed
qed

lemma mset_kway_merge: "mset (kway_merge K rss) = mset (concat rss)"
proof (induction K rss rule: kway_merge.induct)
  case (1 K rss)
  show ?case
  proof (cases "pop_least K rss")
    case None
    then have c: "concat rss = []" by (simp add: pop_least_None)
    show ?thesis unfolding c by (simp add: kway_merge.simps [of K rss] None)
  next
    case (Some p)
    obtain x rss' where p: "p = (x, rss')" by (cases p)
    from 1 [OF Some [unfolded p] refl] pop_least_mset [OF Some [unfolded p]] Some p
    show ?thesis by (simp add: kway_merge.simps [of K rss])
  qed
qed

lemma sorted_kway_merge:
  assumes "\<forall>r\<in>set rss. sorted (map (k_value K) r)"
  shows "sorted (map (k_value K) (kway_merge K rss))"
  using assms
proof (induction K rss rule: kway_merge.induct)
  case (1 K rss)
  show ?case
  proof (cases "pop_least K rss")
    case None
    then show ?thesis by (simp add: kway_merge.simps [of K rss])
  next
    case (Some p)
    obtain x rss' where p: "p = (x, rss')" by (cases p)
    note pop = Some [unfolded p]
    have s': "\<forall>r\<in>set rss'. sorted (map (k_value K) r)"
      by (rule pop_least_sorted [OF pop "1.prems"])
    have ih: "sorted (map (k_value K) (kway_merge K rss'))"
      by (rule "1.IH" [OF pop refl s'])
    have "set (kway_merge K rss') \<subseteq> set (concat rss)"
      using mset_kway_merge [of K rss'] pop_least_mset [OF pop]
      by (metis mset_eq_setD set_mset_add_mset_insert set_mset_mset subset_insertI)
    with pop_least_min [OF pop "1.prems"]
    have "\<forall>y\<in>set (kway_merge K rss'). k_value K x \<le> k_value K y" by blast
    with ih Some p show ?thesis by (simp add: kway_merge.simps [of K rss])
  qed
qed

lemma filter_kway_merge:
  assumes "\<forall>r\<in>set rss. sorted (map (k_value K) r)"
  shows "filter (\<lambda>r. k_value K r = k) (kway_merge K rss) =
         filter (\<lambda>r. k_value K r = k) (concat rss)"
  using assms
proof (induction K rss rule: kway_merge.induct)
  case (1 K rss)
  show ?case
  proof (cases "pop_least K rss")
    case None
    then have c: "concat rss = []" by (simp add: pop_least_None)
    show ?thesis unfolding c by (simp add: kway_merge.simps [of K rss] None)
  next
    case (Some p)
    obtain x rss' where p: "p = (x, rss')" by (cases p)
    note pop = Some [unfolded p]
    have s': "\<forall>r\<in>set rss'. sorted (map (k_value K) r)"
      by (rule pop_least_sorted [OF pop "1.prems"])
    note ih = "1.IH" [OF pop refl s']
    show ?thesis
      unfolding pop_least_filter [OF pop "1.prems"]
      using ih Some p by (simp add: kway_merge.simps [of K rss])
  qed
qed

lemma spill_sorted: "\<forall>r\<in>set (spill bound K buf xs). sorted (map (k_value K) r)"
  by (induction xs arbitrary: buf) auto

lemma spill_mset: "mset (concat (spill bound K buf xs)) = mset buf + mset xs"
  by (induction xs arbitrary: buf) auto

lemma spill_filter:
  "filter (\<lambda>r. k_value K r = k) (concat (spill bound K buf xs)) =
   filter (\<lambda>r. k_value K r = k) (buf @ xs)"
proof (induction xs arbitrary: buf)
  case Nil
  show ?case using sort_key_stable [of "k_value K" k buf] by simp
next
  case (Cons x xs)
  show ?case
    using Cons [of "[]"] Cons [of "buf @ [x]"] sort_key_stable [of "k_value K" k "buf @ [x]"]
    by simp
qed

lemma external_sort_props:
  "mset (external_sort bound K xs) = mset xs \<and>
   sorted (map (k_value K) (external_sort bound K xs)) \<and>
   (\<forall>k. filter (\<lambda>r. k_value K r = k) (external_sort bound K xs) =
        filter (\<lambda>r. k_value K r = k) xs)"
  using spill_mset [of bound K "[]" xs] spill_filter [of K _ bound "[]" xs]
  by (simp add: external_sort_def mset_kway_merge sorted_kway_merge filter_kway_merge spill_sorted)

text \<open>
  C4. For every key tuple, memory bound and finite input, the sort yields a permutation
  of its input, ordered by key value, in which the rows of each key value keep their
  input order, however many runs the bound forces.
\<close>

theorem ExternalSort_stable_total:
  "ExternalSort_call bound K (of_list xs) = of_list (external_sort bound K xs) \<and>
   mset (external_sort bound K xs) = mset xs \<and>
   sorted (map (k_value K) (external_sort bound K xs)) \<and>
   (\<forall>k. filter (\<lambda>r. k_value K r = k) (external_sort bound K xs) =
        filter (\<lambda>r. k_value K r = k) xs)"
  using external_sort_props [of bound K xs] by (simp add: ExternalSort_call_def)

theorem ExternalSort_stable_total_witness:
  "ExternalSort_call 2 [''k'']
     (of_list [[(''k'', IntV 3)], [(''k'', IntV 1)], [(''k'', IntV 4)], [(''k'', IntV 1)],
               [(''k'', IntV 5)], [(''k'', IntV 9)], [(''k'', IntV 2)]]) =
   of_list [[(''k'', IntV 1)], [(''k'', IntV 1)], [(''k'', IntV 2)], [(''k'', IntV 3)],
            [(''k'', IntV 4)], [(''k'', IntV 5)], [(''k'', IntV 9)]] \<and>
   ExternalSort_call 2 [''k'']
     (of_list [[(''k'', IntV 3)], [(''k'', IntV 1), (''i'', IntV 0)], [(''k'', IntV 4)],
               [(''k'', IntV 1), (''i'', IntV 1)], [(''k'', IntV 5)], [(''k'', IntV 9)],
               [(''k'', IntV 2)]]) =
   of_list [[(''k'', IntV 1), (''i'', IntV 0)], [(''k'', IntV 1), (''i'', IntV 1)],
            [(''k'', IntV 2)], [(''k'', IntV 3)], [(''k'', IntV 4)], [(''k'', IntV 5)],
            [(''k'', IntV 9)]]"
proof -
  have a: "external_sort 2 [''k'']
     [[(''k'', IntV 3)], [(''k'', IntV 1)], [(''k'', IntV 4)], [(''k'', IntV 1)],
      [(''k'', IntV 5)], [(''k'', IntV 9)], [(''k'', IntV 2)]] =
     [[(''k'', IntV 1)], [(''k'', IntV 1)], [(''k'', IntV 2)], [(''k'', IntV 3)],
      [(''k'', IntV 4)], [(''k'', IntV 5)], [(''k'', IntV 9)]]"
    by code_simp
  have b: "external_sort 2 [''k'']
     [[(''k'', IntV 3)], [(''k'', IntV 1), (''i'', IntV 0)], [(''k'', IntV 4)],
      [(''k'', IntV 1), (''i'', IntV 1)], [(''k'', IntV 5)], [(''k'', IntV 9)],
      [(''k'', IntV 2)]] =
     [[(''k'', IntV 1), (''i'', IntV 0)], [(''k'', IntV 1), (''i'', IntV 1)],
      [(''k'', IntV 2)], [(''k'', IntV 3)], [(''k'', IntV 4)], [(''k'', IntV 5)],
      [(''k'', IntV 9)]]"
    by code_simp
  from ExternalSort_stable_total [of 2 "[''k'']"] show ?thesis
    unfolding a b by (simp only: a b)
qed

section \<open>The graph\<close>

text \<open>The sources of a run, \<open>**kwargs\<close>: a name is bound to a producer, and calling the
  producer gives a stream of rows.\<close>

type_synonym kwargs = "string \<rightharpoonup> row stream"

text \<open>
  Modelled from the spec: \<open>ReadIterFactory.__call__\<close> (\<open>operations/base.py\<close> is not among
  the sources; \<open>Graph.graph_from_iter\<close> only constructs the operation). The specification:
  given a name, it looks up \<open>named_sources[name]\<close>, a producer of rows, and re-emits its
  rows unchanged; a run with an unbound source name fails with \<open>EmptyOperation\<close>.
\<close>

definition ReadIterFactory_call :: "string \<Rightarrow> kwargs \<Rightarrow> row stream" where
  "ReadIterFactory_call name kw =
     (case kw name of None \<Rightarrow> Raise EmptyOperation | Some rows \<Rightarrow> rows)"


text \<open>The operations a node can carry (reading from a file is left out), and \<open>Graph\<close>
  with its fields \<open>_operation\<close> and \<open>_graphs\<close>. \<open>Graph()\<close> has no operation. The memory bound
  of the sort is a parameter of its constructor that \<open>Graph.sort\<close> leaves at its default;
  here it is given with the key tuple.\<close>

datatype operation =
    ReadIterFactory string
  | Map mapper
  | Reduce reducer "string list"
  | ExternalSort nat "string list"
  | Join joiner "string list"

datatype graph = Graph "operation option" "graph list"


text \<open>\<open>self._operation(...)\<close> with the keyword arguments and the upstream streams. A
  \<open>Map\<close>, \<open>Reduce\<close> or sort without its \<open>rows\<close> argument is a \<open>TypeError\<close>, a \<open>Join\<close> without a
  second stream fails at \<open>args[0]\<close>.\<close>

fun call_operation :: "operation \<Rightarrow> kwargs \<Rightarrow> row stream list \<Rightarrow> row stream" where
  "call_operation (ReadIterFactory name) kw args = ReadIterFactory_call name kw"
| "call_operation (Map m) kw (rows # args) = Map_call m rows"
| "call_operation (Reduce r K) kw (rows # args) = Reduce_call r K rows"
| "call_operation (ExternalSort bound K) kw (rows # args) = ExternalSort_call bound K rows"
| "call_operation (Join j K) kw (rows # rows2 # args) = Join_call j K rows rows2"
| "call_operation (Join j K) kw [rows] = Raise IndexError"
| "call_operation operation kw [] = Raise TypeError"








text \<open>
  \<open>Graph.run\<close> is a generator function:
  \<^verbatim>\<open>if self._operation is None:
      raise EmptyOperation('No operation passed!')
  if not len(self._graphs):
      yield from self._operation(**kwargs)
  elif len(self._graphs) == 1:
      yield from self._operation(self._graphs[0].run(**kwargs))
  else:
      yield from self._operation(self._graphs[0].run(**kwargs),
                                 self._graphs[1].run(**kwargs))\<close>
  \<open>run_body\<close> is what the body does once the generator is advanced. The call itself,
  \<open>run\<close>, runs nothing of the body: it returns the generator. The calls of \<open>run\<close> on the
  upstream graphs inside the body are such calls too.
\<close>

fun run_body :: "graph \<Rightarrow> kwargs \<Rightarrow> row stream" where
  "run_body (Graph None gs) kw = Raise EmptyOperation"
| "run_body (Graph (Some operation) []) kw = call_operation operation kw []"
| "run_body (Graph (Some operation) [g]) kw = call_operation operation kw [run_body g kw]"
| "run_body (Graph (Some operation) (g1 # g2 # gs)) kw =
     call_operation operation kw [run_body g1 kw, run_body g2 kw]"


definition run :: "graph \<Rightarrow> kwargs \<Rightarrow> error + row stream" where
  "run self kw = Inr (run_body self kw)"






subsection \<open>The node that fails first\<close>






text \<open>
  C9. The call of \<open>run\<close> never raises: it returns a stream. On a graph with no operation
  the returned stream raises \<open>EmptyOperation\<close> when it is advanced for the first time.
\<close>

theorem run_is_lazy:
  "(\<exists>s. run g kw = Inr s) \<and>
   (\<exists>s. run (Graph None gs) kw = Inr s \<and> advance s = Inl EmptyOperation)"
  by (simp add: run_def)

theorem run_is_lazy_witness:
  "run (Graph None []) Map.empty = Inr (Raise EmptyOperation) \<and>
   advance (Raise EmptyOperation :: row stream) = Inl EmptyOperation"
proof -
  from run_is_lazy [of "Graph None []" Map.empty "[]"]
  obtain s where "run (Graph None []) Map.empty = Inr s" and "advance s = Inl EmptyOperation"
    by blast
  then show ?thesis by (simp add: run_def)
qed

end
